theory Spec2Isabelle
  imports Complex_Main "HOL-Library.Word"
begin

section \<open>The CometAPI realtime WebSocket client\<close>

text \<open>
  A shallow embedding of the class \<open>CometAPIWebSocket\<close>: its codec (Float32 to PCM16,
  base64), its listener registry, its transport operations and its playback queue.
  Every private field of the class is a field of the record \<open>client\<close>; the browser
  objects the class talks to (WebSocket links, audio nodes, the wire) are further fields
  of the same record, so that each method is a function from state to state.
\<close>

type_synonym byte = "8 word"

datatype error = InvalidCharacterError | RangeError | SyntaxError

subsection \<open>base64: the platform functions \<open>btoa\<close> and \<open>atob\<close>\<close>

text \<open>
  \<open>btoa\<close> is the base64 encoding of RFC 4648 with padding; \<open>atob\<close> is the
  forgiving-base64 decoding of the WHATWG Infra standard. A JavaScript string all of whose
  code units are below 256 (a binary string) is a \<open>string\<close> here: \<open>of_char\<close> is
  \<open>charCodeAt\<close> and \<open>char_of\<close> is \<open>String.fromCharCode\<close>.
\<close>

definition b64chars :: string where
  "b64chars = ''ABCDEFGHIJKLMNOPQRSTUVWXYZabcdefghijklmnopqrstuvwxyz0123456789+/''"

definition b64char :: "nat \<Rightarrow> char" where
  "b64char n = b64chars ! n"

fun index_of :: "'a \<Rightarrow> 'a list \<Rightarrow> nat option" where
  "index_of x [] = None"
| "index_of x (y # ys) = (if x = y then Some 0 else map_option Suc (index_of x ys))"

definition b64index :: "char \<Rightarrow> nat option" where
  "b64index c = index_of c b64chars"

text \<open>Three octets make one 24-bit group, read as four 6-bit values; a final group of
  two octets gives three values, a final group of one octet gives two.\<close>

fun sextets :: "nat list \<Rightarrow> nat list" where
  "sextets (a # b # c # rest) =
     (let n = a * 65536 + b * 256 + c
      in [n div 262144, n div 4096 mod 64, n div 64 mod 64, n mod 64]) @ sextets rest"
| "sextets [a, b] =
     (let n = a * 65536 + b * 256
      in [n div 262144, n div 4096 mod 64, n div 64 mod 64])"
| "sextets [a] = (let n = a * 65536 in [n div 262144, n div 4096 mod 64])"
| "sextets [] = []"

definition btoa :: "string \<Rightarrow> string" where
  "btoa s = map b64char (sextets (map of_char s))
            @ replicate ((3 - length s mod 3) mod 3) CHR ''=''"

text \<open>Four 6-bit values give three octets; a rest of three values (18 bits) drops its
  last two bits and gives two octets, a rest of two values (12 bits) drops four bits and
  gives one octet.\<close>

fun octets :: "nat list \<Rightarrow> nat list" where
  "octets (s1 # s2 # s3 # s4 # rest) =
     (let n = s1 * 262144 + s2 * 4096 + s3 * 64 + s4
      in [n div 65536, n div 256 mod 256, n mod 256]) @ octets rest"
| "octets [s1, s2, s3] =
     (let n = (s1 * 4096 + s2 * 64 + s3) div 4 in [n div 256, n mod 256])"
| "octets [s1, s2] = [(s1 * 64 + s2) div 16]"
| "octets _ = []"

definition ascii_whitespace :: "char \<Rightarrow> bool" where
  "ascii_whitespace c \<longleftrightarrow> c \<in> {CHR 0x09, CHR 0x0A, CHR 0x0C, CHR 0x0D, CHR 0x20}"

definition strip_padding :: "string \<Rightarrow> string" where
  "strip_padding d =
     (if length d mod 4 \<noteq> 0 then d
      else if 2 \<le> length d \<and> last d = CHR ''='' \<and> last (butlast d) = CHR ''=''
        then butlast (butlast d)
      else if d \<noteq> [] \<and> last d = CHR ''='' then butlast d
      else d)"

text \<open>\<open>None\<close> is the \<open>InvalidCharacterError\<close> that \<open>atob\<close> throws.\<close>

definition atob :: "string \<Rightarrow> string option" where
  "atob data =
     (let d = strip_padding (filter (\<lambda>c. \<not> ascii_whitespace c) data)
      in if length d mod 4 = 1 then None
         else case those (map b64index d) of
                None \<Rightarrow> None
              | Some ss \<Rightarrow> Some (map char_of (octets ss)))"

subsection \<open>\<open>arrayBufferToBase64\<close> and \<open>base64ToArrayBuffer\<close>\<close>

definition arrayBufferToBase64 :: "byte list \<Rightarrow> string" where
  "arrayBufferToBase64 buffer = btoa (map (\<lambda>b. char_of (unat b)) buffer)"

definition base64ToArrayBuffer :: "string \<Rightarrow> error + byte list" where
  "base64ToArrayBuffer base64 =
     (case atob base64 of
        None \<Rightarrow> Inl InvalidCharacterError
      | Some binaryString \<Rightarrow> Inr (map (\<lambda>c. word_of_nat (of_char c)) binaryString))"

subsection \<open>Samples\<close>

text \<open>
  An element read from a \<open>Float32Array\<close> is a JavaScript number: a finite value, an
  infinity or NaN. Every finite single-precision value is a real number, and the two
  products that \<open>convertFloat32ToPCM16\<close> forms from a clamped sample (a 24-bit
  significand times \<open>0x8000\<close> or \<open>0x7fff\<close>) are exact in double precision, so real
  arithmetic computes what the code computes.
\<close>

datatype number = Finite real | PosInfinity | NegInfinity | NaN

text \<open>\<open>Math.min(k, x)\<close> and \<open>Math.max(k, x)\<close> for a finite constant \<open>k\<close>.\<close>

fun Math_min :: "real \<Rightarrow> number \<Rightarrow> number" where
  "Math_min k (Finite r) = Finite (min k r)"
| "Math_min k PosInfinity = Finite k"
| "Math_min k NegInfinity = NegInfinity"
| "Math_min k NaN = NaN"

fun Math_max :: "real \<Rightarrow> number \<Rightarrow> number" where
  "Math_max k (Finite r) = Finite (max k r)"
| "Math_max k PosInfinity = PosInfinity"
| "Math_max k NegInfinity = Finite k"
| "Math_max k NaN = NaN"

text \<open>\<open>x < 0\<close>: false for NaN.\<close>

fun negative :: "number \<Rightarrow> bool" where
  "negative (Finite r) = (r < 0)"
| "negative NegInfinity = True"
| "negative PosInfinity = False"
| "negative NaN = False"

text \<open>\<open>x * k\<close> for a positive finite constant \<open>k\<close>.\<close>

fun times_const :: "number \<Rightarrow> real \<Rightarrow> number" where
  "times_const (Finite r) k = Finite (r * k)"
| "times_const x k = x"

text \<open>
  Storing a number into an \<open>Int16Array\<close> element applies ToInt16: NaN and the infinities
  become 0, a finite value is truncated toward zero and reduced modulo \<open>2 ^ 16\<close>.
\<close>

definition js_truncate :: "real \<Rightarrow> int" where
  "js_truncate y = (if y < 0 then \<lceil>y\<rceil> else \<lfloor>y\<rfloor>)"

fun ToInt16 :: "number \<Rightarrow> 16 word" where
  "ToInt16 (Finite y) = word_of_int (js_truncate y)"
| "ToInt16 x = 0"

text \<open>The body of the loop of \<open>convertFloat32ToPCM16\<close>.\<close>

definition pcm16_sample :: "number \<Rightarrow> 16 word" where
  "pcm16_sample x =
     (let s = Math_max (-1) (Math_min 1 x)
      in ToInt16 (if negative s then times_const s 32768 else times_const s 32767))"

text \<open>The bytes of an \<open>Int16Array\<close> element in its buffer: low byte first.\<close>

definition int16_bytes :: "16 word \<Rightarrow> byte list" where
  "int16_bytes w = [ucast w, ucast (drop_bit 8 w)]"

definition convertFloat32ToPCM16 :: "number list \<Rightarrow> byte list" where
  "convertFloat32ToPCM16 float32Array = concat (map (\<lambda>x. int16_bytes (pcm16_sample x)) float32Array)"

text \<open>
  Storing a number into a \<open>Float32Array\<close> element rounds it to the nearest
  single-precision value, ties to the even significand. \<open>ulp y\<close> is the distance between
  neighbouring single-precision values around \<open>y\<close>: \<open>2 ^ (e - 23)\<close> where
  \<open>2 ^ e \<le> \<bar>y\<bar> < 2 ^ (e + 1)\<close>, with \<open>e\<close> found by halving or doubling and
  held in the exponent range of the format (\<open>- 126\<close> for the subnormal values, at most
  127). \<open>fround\<close> is \<open>Math.fround\<close> on the values of magnitude below \<open>2 ^ 128\<close>,
  beyond which the store gives an infinity.
\<close>

definition round_even :: "real \<Rightarrow> int" where
  "round_even z =
     (let f = \<lfloor>z\<rfloor>
      in if z - of_int f < 1 / 2 then f
         else if 1 / 2 < z - of_int f then f + 1
         else if even f then f else f + 1)"

fun doublings :: "nat \<Rightarrow> real \<Rightarrow> nat" where
  "doublings 0 y = 0"
| "doublings (Suc n) y = (if 1 \<le> y then 0 else Suc (doublings n (2 * y)))"

fun halvings :: "nat \<Rightarrow> real \<Rightarrow> nat" where
  "halvings 0 y = 0"
| "halvings (Suc n) y = (if y < 2 then 0 else Suc (halvings n (y / 2)))"

definition ulp :: "real \<Rightarrow> real" where
  "ulp y =
     (if 1 \<le> \<bar>y\<bar> then 2 ^ halvings 127 \<bar>y\<bar> / 2 ^ 23
      else 1 / 2 ^ (doublings 126 \<bar>y\<bar> + 23))"

definition fround :: "real \<Rightarrow> real" where
  "fround y = ulp y * of_int (round_even (y / ulp y))"

text \<open>For \<open>\<bar>y\<bar> \<le> 1\<close> the distance \<open>ulp y\<close> is \<open>1 / 2 ^ grid_bits y\<close>.\<close>

definition grid_bits :: "real \<Rightarrow> nat" where
  "grid_bits y = (if 1 \<le> \<bar>y\<bar> then 23 else doublings 126 \<bar>y\<bar> + 23)"

text \<open>
  The decoding that \<open>playNextAudioChunk\<close> performs on the bytes of a chunk:
  \<open>new Int16Array(arrayBuffer)\<close> throws a \<open>RangeError\<close> on an odd number of bytes, and
  each element \<open>v\<close> becomes \<open>float32[i] = v / (v < 0 ? 0x8000 : 0x7fff)\<close>, the quotient
  stored into a \<open>Float32Array\<close> element. The division is done in double precision:
  a quotient by \<open>0x8000\<close> is exact, and a quotient by \<open>0x7fff\<close> is at least
  \<open>1/65534\<close> of a single-precision step away from every midpoint between two
  single-precision values, far more than the error of the double-precision division, so
  the element is the single-precision rounding of the exact quotient.
\<close>

fun Int16Array :: "byte list \<Rightarrow> error + 16 word list" where
  "Int16Array [] = Inr []"
| "Int16Array [lo] = Inl RangeError"
| "Int16Array (lo # hi # rest) =
     (case Int16Array rest of
        Inl e \<Rightarrow> Inl e
      | Inr elems \<Rightarrow> Inr (word_of_nat (unat lo + 256 * unat hi) # elems))"

definition pcm16_to_float :: "16 word \<Rightarrow> real" where
  "pcm16_to_float w =
     fround (real_of_int (sint w) / (if sint w < 0 then 32768 else 32767))"

definition decodePCM16 :: "byte list \<Rightarrow> error + real list" where
  "decodePCM16 arrayBuffer =
     (case Int16Array arrayBuffer of
        Inl e \<Rightarrow> Inl e
      | Inr pcm16 \<Rightarrow> Inr (map pcm16_to_float pcm16))"

text \<open>The encoder as the specification words it, with rounding to the nearest integer,
  for comparison with \<open>pcm16_sample\<close>.\<close>

definition encodeSample_nearest :: "real \<Rightarrow> int" where
  "encodeSample_nearest x =
     (let s = max (-1) (min 1 x) in round (if s < 0 then s * 32768 else s * 32767))"

subsection \<open>Events\<close>

text \<open>
  A \<open>RealtimeEvent\<close> has a \<open>type\<close>, an optional \<open>event_id\<close> and further named
  fields. A frame on the wire is \<open>JSON.stringify\<close> of such an object; the model keeps the
  object itself.
\<close>

datatype jv = JString string | JNumber int

record event =
  etype :: string
  event_id :: "string option"
  payload :: "(string \<times> jv) list"

text \<open>The test \<open>!event.event_id\<close>: an absent identifier and the empty string are both
  falsy.\<close>

definition lacks_event_id :: "event \<Rightarrow> bool" where
  "lacks_event_id e = (event_id e = None \<or> event_id e = Some [])"

subsection \<open>The client and its environment\<close>

type_synonym listener = nat

datatype readyState = CONNECTING | OPEN | CLOSING | CLOSED

datatype devop = Disconnect nat | StopTracks nat | CloseContext nat

text \<open>
  The first seven fields are the private fields of the class (\<open>ws\<close> holds the index of a
  link in \<open>links\<close>; a listener is identified by a number, as a function object is by its
  reference). The other fields are the environment: every WebSocket constructed so far
  with its \<open>readyState\<close>, the frames handed to \<open>send\<close> with the link they were sent on,
  the number of calls of \<open>crypto.randomUUID\<close>, the buffer sources that were started and
  have not ended, every chunk for which \<open>source.start\<close> was called, and the calls that
  released an audio device.
\<close>

record client =
  ws :: "nat option"
  eventHandlers :: "string \<rightharpoonup> listener list"
  audioContext :: "nat option"
  mediaStream :: "nat option"
  audioProcessor :: "nat option"
  audioQueue :: "string list"
  isPlaying :: bool
  links :: "readyState list"
  wire :: "(nat \<times> event) list"
  uuids :: nat
  playing :: "string list"
  started :: "string list"
  devlog :: "devop list"

definition new_client :: client where
  "new_client =
     \<lparr>ws = None, eventHandlers = Map.empty, audioContext = None, mediaStream = None,
      audioProcessor = None, audioQueue = [], isPlaying = False, links = [], wire = [],
      uuids = 0, playing = [], started = [], devlog = []\<rparr>"

text \<open>The getter \<open>readyState\<close>: \<open>this.ws?.readyState ?? WebSocket.CLOSED\<close>. The only
  assignment of a link to \<open>ws\<close> is in \<open>connect\<close>, which stores the index of the link it
  has just appended; an index outside \<open>links\<close> reads as \<open>CLOSED\<close>.\<close>

definition readyState :: "client \<Rightarrow> readyState" where
  "readyState s =
     (case ws s of
        None \<Rightarrow> CLOSED
      | Some k \<Rightarrow> if k < length (links s) then links s ! k else CLOSED)"

definition isConnected :: "client \<Rightarrow> bool" where
  "isConnected s = (readyState s = OPEN)"

subsection \<open>Listener registry\<close>

definition handlers_of :: "client \<Rightarrow> string \<Rightarrow> listener list" where
  "handlers_of s eventType = (case eventHandlers s eventType of None \<Rightarrow> [] | Some hs \<Rightarrow> hs)"

definition on :: "string \<Rightarrow> listener \<Rightarrow> client \<Rightarrow> client" where
  "on eventType handler s =
     (let hs = handlers_of s eventType
      in s\<lparr>eventHandlers := (eventHandlers s)
             (eventType \<mapsto> (if handler \<in> set hs then hs else hs @ [handler]))\<rparr>)"

definition off :: "string \<Rightarrow> listener \<Rightarrow> client \<Rightarrow> client" where
  "off eventType handler s =
     (case eventHandlers s eventType of
        None \<Rightarrow> s
      | Some hs \<Rightarrow> s\<lparr>eventHandlers := (eventHandlers s)(eventType \<mapsto> removeAll handler hs)\<rparr>)"

text \<open>
  \<open>handlers.forEach((handler) => handler(event))\<close>: the listeners are called in insertion
  order and an exception thrown by one of them leaves the loop. The result is the list of
  the listeners that were called and the listener whose exception left the loop, if any.
  Listeners are taken not to call back into the client while they run.
\<close>

fun forEach :: "(listener \<Rightarrow> bool) \<Rightarrow> listener list \<Rightarrow> listener list \<times> listener option" where
  "forEach throws [] = ([], None)"
| "forEach throws (h # hs) =
     (if throws h then ([h], Some h)
      else (case forEach throws hs of (called, thrown) \<Rightarrow> (h # called, thrown)))"

definition emit ::
  "(listener \<Rightarrow> event \<Rightarrow> bool) \<Rightarrow> event \<Rightarrow> client \<Rightarrow> listener list \<times> listener option" where
  "emit throws e s =
     (case forEach (\<lambda>h. throws h e) (handlers_of s (etype e)) of
        (called, Some h) \<Rightarrow> (called, Some h)
      | (called, None) \<Rightarrow>
          (case forEach (\<lambda>h. throws h e) (handlers_of s ''*'') of
             (called', thrown) \<Rightarrow> (called @ called', thrown)))"

subsection \<open>Transport\<close>

text \<open>
  The synchronous part of \<open>connect\<close>. The argument says whether \<open>new WebSocket(...)\<close>
  accepts the address and the subprotocols; otherwise it throws, \<open>ws\<close> keeps its value
  and the promise is rejected. With \<open>None\<close> the promise is pending.
\<close>

definition connect :: "bool \<Rightarrow> client \<Rightarrow> client \<times> error option" where
  "connect accepted s =
     (if accepted
      then (s\<lparr>links := links s @ [CONNECTING], ws := Some (length (links s))\<rparr>, None)
      else (s, Some SyntaxError))"

text \<open>\<open>ws.send\<close> on an open link; both callers test \<open>readyState\<close> first.\<close>

definition ws_send :: "event \<Rightarrow> client \<Rightarrow> client" where
  "ws_send e s = (case ws s of None \<Rightarrow> s | Some k \<Rightarrow> s\<lparr>wire := wire s @ [(k, e)]\<rparr>)"

text \<open>The first argument of \<open>sendEvent\<close> is \<open>crypto.randomUUID\<close>: the value that its
  \<open>n\<close>-th call returns.\<close>

definition sendEvent :: "(nat \<Rightarrow> string) \<Rightarrow> event \<Rightarrow> client \<Rightarrow> client" where
  "sendEvent randomUUID e s =
     (if readyState s \<noteq> OPEN then s
      else if lacks_event_id e
        then ws_send (e\<lparr>event_id := Some (randomUUID (uuids s))\<rparr>) (s\<lparr>uuids := uuids s + 1\<rparr>)
      else ws_send e s)"

subsection \<open>Capture\<close>

text \<open>
  \<open>startAudioCaptureSync\<close>: the argument is the node that \<open>createScriptProcessor\<close>
  returns, \<open>None\<close> when creating the nodes throws (the exception is caught and logged).
\<close>

definition startAudioCaptureSync :: "nat option \<Rightarrow> client \<Rightarrow> client" where
  "startAudioCaptureSync processor s =
     (if audioContext s = None \<or> mediaStream s = None then s
      else case processor of None \<Rightarrow> s | Some p \<Rightarrow> s\<lparr>audioProcessor := Some p\<rparr>)"

text \<open>The \<open>open\<close> listener of link \<open>k\<close>, run once the browser has opened the link.\<close>

definition ws_open :: "nat option \<Rightarrow> nat \<Rightarrow> client \<Rightarrow> client" where
  "ws_open processor k s = startAudioCaptureSync processor (s\<lparr>links := (links s)[k := OPEN]\<rparr>)"

text \<open>
  \<open>processor.onaudioprocess\<close> as \<open>startAudioCaptureSync\<close> installs it. The counter
  \<open>audioPacketCount\<close> is a variable of the closure, so it is passed and returned beside
  the client.
\<close>

definition onaudioprocess :: "number list \<Rightarrow> nat \<times> client \<Rightarrow> nat \<times> client" where
  "onaudioprocess inputData st =
     (case st of (audioPacketCount, s) \<Rightarrow>
        if readyState s \<noteq> OPEN then (audioPacketCount + 1, s)
        else
          let pcm16 = convertFloat32ToPCM16 inputData;
              base64Audio = arrayBufferToBase64 pcm16;
              audioEvent = \<lparr>etype = ''input_audio_buffer.append'', event_id = None,
                            payload = [(''audio'', JString base64Audio)]\<rparr>
          in (audioPacketCount + 1, ws_send audioEvent s))"

definition stopAudioCapture :: "client \<Rightarrow> client" where
  "stopAudioCapture s =
     (let s1 = (case audioProcessor s of
                  None \<Rightarrow> s
                | Some p \<Rightarrow> s\<lparr>devlog := devlog s @ [Disconnect p], audioProcessor := None\<rparr>);
          s2 = (case mediaStream s1 of
                  None \<Rightarrow> s1
                | Some m \<Rightarrow> s1\<lparr>devlog := devlog s1 @ [StopTracks m], mediaStream := None\<rparr>)
      in case audioContext s2 of
           None \<Rightarrow> s2
         | Some c \<Rightarrow> s2\<lparr>devlog := devlog s2 @ [CloseContext c], audioContext := None\<rparr>)"

subsection \<open>Closing\<close>

definition cleanup :: "client \<Rightarrow> client" where
  "cleanup s = (stopAudioCapture s)\<lparr>audioQueue := [], isPlaying := False, eventHandlers := Map.empty\<rparr>"

text \<open>\<open>WebSocket.close()\<close>: a link that is connecting or open starts closing, a link
  that is closing or closed stays as it is.\<close>

fun link_close :: "readyState \<Rightarrow> readyState" where
  "link_close CONNECTING = CLOSING"
| "link_close OPEN = CLOSING"
| "link_close r = r"

definition close :: "client \<Rightarrow> client" where
  "close s =
     (let s1 = cleanup s
      in case ws s1 of
           None \<Rightarrow> s1
         | Some k \<Rightarrow> s1\<lparr>links := (links s1)[k := link_close (readyState s1)], ws := None\<rparr>)"

text \<open>
  The \<open>close\<close> listener of link \<open>k\<close>, run once the browser has closed the link with a
  code and a reason: \<open>this.cleanup()\<close>, then \<open>this.emit\<close> of the \<open>close\<close> event. The
  result is the client and what \<open>emit\<close> returns.
\<close>

definition close_event :: "int \<Rightarrow> string \<Rightarrow> event" where
  "close_event code reason =
     \<lparr>etype = ''close'', event_id = None,
      payload = [(''code'', JNumber code), (''reason'', JString reason)]\<rparr>"

definition ws_close ::
  "(listener \<Rightarrow> event \<Rightarrow> bool) \<Rightarrow> nat \<Rightarrow> int \<Rightarrow> string \<Rightarrow> client
     \<Rightarrow> client \<times> listener list \<times> listener option" where
  "ws_close throws k code reason s =
     (let s1 = cleanup (s\<lparr>links := (links s)[k := CLOSED]\<rparr>)
      in (s1, emit throws (close_event code reason) s1))"

subsection \<open>Playback queue\<close>

text \<open>
  The output device: \<open>newAudioContext\<close> is what \<open>new AudioContext(...)\<close> returns
  (\<open>None\<close> when it throws), \<open>startSource\<close> says whether \<open>createBuffer\<close>,
  \<open>createBufferSource\<close>, \<open>connect\<close> and \<open>start\<close> go through for the decoded samples.
\<close>

record device =
  newAudioContext :: "nat option"
  startSource :: "real list \<Rightarrow> bool"

text \<open>The \<open>try\<close> block of \<open>playNextAudioChunk\<close>: the client afterwards, and whether the
  block reached \<open>source.start(0)\<close> without an exception.\<close>

definition try_play :: "device \<Rightarrow> string \<Rightarrow> client \<Rightarrow> client \<times> bool" where
  "try_play dev base64Audio s =
     (case (case audioContext s of Some c \<Rightarrow> Some c | None \<Rightarrow> newAudioContext dev) of
        None \<Rightarrow> (s, False)
      | Some c \<Rightarrow>
          let s1 = s\<lparr>audioContext := Some c\<rparr>
          in case base64ToArrayBuffer base64Audio of
               Inl e \<Rightarrow> (s1, False)
             | Inr arrayBuffer \<Rightarrow>
                 (case decodePCM16 arrayBuffer of
                    Inl e \<Rightarrow> (s1, False)
                  | Inr float32 \<Rightarrow>
                      if startSource dev float32
                      then (s1\<lparr>playing := playing s1 @ [base64Audio],
                               started := started s1 @ [base64Audio]\<rparr>, True)
                      else (s1, False)))"

function playNextAudioChunk :: "device \<Rightarrow> client \<Rightarrow> client" where
  "playNextAudioChunk dev s =
     (case audioQueue s of
        [] \<Rightarrow> s\<lparr>isPlaying := False\<rparr>
      | base64Audio # rest \<Rightarrow>
          (case try_play dev base64Audio (s\<lparr>isPlaying := True, audioQueue := rest\<rparr>) of
             (s1, ok) \<Rightarrow> if ok then s1 else playNextAudioChunk dev s1))"
  by pat_completeness auto
termination
  by (relation "measure (\<lambda>(dev, s). length (audioQueue s))")
     (auto simp add: try_play_def Let_def split: option.splits sum.splits if_splits)

definition queueAudio :: "device \<Rightarrow> string \<Rightarrow> client \<Rightarrow> client" where
  "queueAudio dev base64Audio s =
     (let s1 = s\<lparr>audioQueue := audioQueue s @ [base64Audio]\<rparr>
      in if \<not> isPlaying s1 then playNextAudioChunk dev s1 else s1)"

text \<open>\<open>source.onended\<close>: the oldest playing source has ended.\<close>

definition onended :: "device \<Rightarrow> client \<Rightarrow> client" where
  "onended dev s = playNextAudioChunk dev (s\<lparr>playing := tl (playing s)\<rparr>)"

text \<open>
  A run of the playback queue: chunks arrive and playing sources end. A completion can
  only fire while a source is playing; a run that asks for one otherwise is no run
  (\<open>None\<close>).
\<close>

datatype playback_event = Enqueue string | Ended

fun playback :: "device \<Rightarrow> playback_event list \<Rightarrow> client \<Rightarrow> client option" where
  "playback dev [] s = Some s"
| "playback dev (Enqueue c # evs) s = playback dev evs (queueAudio dev c s)"
| "playback dev (Ended # evs) s =
     (if playing s = [] then None else playback dev evs (onended dev s))"

fun enqueued :: "playback_event list \<Rightarrow> string list" where
  "enqueued [] = []"
| "enqueued (Enqueue c # evs) = c # enqueued evs"
| "enqueued (Ended # evs) = enqueued evs"

text \<open>Whether the \<open>try\<close> block goes through for a chunk, given that an audio context
  is there or can be made.\<close>

definition has_context :: "device \<Rightarrow> client \<Rightarrow> bool" where
  "has_context dev s = (audioContext s \<noteq> None \<or> newAudioContext dev \<noteq> None)"

definition playable :: "device \<Rightarrow> bool \<Rightarrow> string \<Rightarrow> bool" where
  "playable dev ctx base64Audio =
     (ctx \<and>
      (case base64ToArrayBuffer base64Audio of
         Inl e \<Rightarrow> False
       | Inr arrayBuffer \<Rightarrow>
           (case decodePCM16 arrayBuffer of Inl e \<Rightarrow> False | Inr float32 \<Rightarrow> startSource dev float32)))"

subsection \<open>A session\<close>

text \<open>
  The states a session of the hook \<open>useRealtimeSession\<close> goes through: it sets the audio
  context and the microphone stream on a new client, subscribes its handler to every
  event, calls \<open>connect\<close>, and the browser opens the link. Listener 3 is a second
  subscriber, to \<open>close\<close> events only.
\<close>

definition session_client :: client where
  "session_client =
     on ''close'' 3 (on ''*'' 7 (new_client\<lparr>audioContext := Some 0, mediaStream := Some 1\<rparr>))"

definition connecting_client :: client where
  "connecting_client = fst (connect True session_client)"

definition open_client :: client where
  "open_client = ws_open (Some 2) 0 connecting_client"

definition never_throws :: "listener \<Rightarrow> event \<Rightarrow> bool" where
  "never_throws h e = False"

text \<open>Two listeners, the first of which throws on every event.\<close>

definition two_listeners :: client where
  "two_listeners = on ''*'' 2 (on ''foo'' 1 new_client)"

definition first_throws :: "listener \<Rightarrow> event \<Rightarrow> bool" where
  "first_throws h e = (h = 1)"

definition foo_event :: event where
  "foo_event = \<lparr>etype = ''foo'', event_id = None, payload = []\<rparr>"

text \<open>A source of identifiers that never repeats itself.\<close>

definition counting_uuid :: "nat \<Rightarrow> string" where
  "counting_uuid n = replicate (Suc n) CHR ''u''"

text \<open>What holds of the queue between two events: the flag is set exactly when a source
  is playing, at most one source is playing, and chunks wait only while one is.\<close>

definition queue_inv :: "client \<Rightarrow> bool" where
  "queue_inv s = ((isPlaying s = (playing s \<noteq> [])) \<and> length (playing s) \<le> 1
                  \<and> (isPlaying s \<or> audioQueue s = []))"

text \<open>An output device that can make an audio context and plays every non-empty
  buffer (\<open>createBuffer\<close> refuses a length of 0).\<close>

definition test_device :: device where
  "test_device = \<lparr>newAudioContext = Some 9, startSource = (\<lambda>float32. float32 \<noteq> [])\<rparr>"

section \<open>Properties\<close>

subsection \<open>base64 round trip\<close>

lemma index_of_nth: "distinct xs \<Longrightarrow> n < length xs \<Longrightarrow> index_of (xs ! n) xs = Some n"
proof (induction xs arbitrary: n)
  case Nil
  then show ?case by simp
next
  case (Cons y ys)
  show ?case
  proof (cases n)
    case 0
    then show ?thesis by simp
  next
    case (Suc m)
    with Cons.prems have "ys ! m \<noteq> y" "m < length ys" "distinct ys" by auto
    with Cons.IH [of m] Suc show ?thesis by simp
  qed
qed

lemma distinct_b64chars: "distinct b64chars"
  by (simp add: b64chars_def)

lemma length_b64chars: "length b64chars = 64"
  by (simp add: b64chars_def)

lemma b64index_b64char: "n < 64 \<Longrightarrow> b64index (b64char n) = Some n"
  by (simp add: b64index_def b64char_def index_of_nth distinct_b64chars length_b64chars)

lemma b64chars_plain: "c \<in> set b64chars \<Longrightarrow> \<not> ascii_whitespace c \<and> c \<noteq> CHR ''=''"
  by (auto simp add: b64chars_def ascii_whitespace_def)

lemma b64char_plain: "n < 64 \<Longrightarrow> \<not> ascii_whitespace (b64char n) \<and> b64char n \<noteq> CHR ''=''"
  by (rule b64chars_plain) (simp add: b64char_def length_b64chars)

text \<open>Splitting a number into 6-bit digits and putting them together again.\<close>

lemma split64:
  fixes n :: nat
  shows "n div 262144 * 262144 + n div 4096 mod 64 * 4096 + n div 64 mod 64 * 64 + n mod 64 = n"
    and "n div 262144 * 4096 + n div 4096 mod 64 * 64 + n div 64 mod 64 = n div 64"
    and "n div 262144 * 64 + n div 4096 mod 64 = n div 4096"
proof -
  define q1 where "q1 = n div 64"
  define q2 where "q2 = q1 div 64"
  define q3 where "q3 = q2 div 64"
  have e1: "n div 4096 = q2" by (simp add: q1_def q2_def div_mult2_eq)
  have e2: "n div 262144 = q3" by (simp add: q1_def q2_def q3_def div_mult2_eq)
  have d1: "n = q1 * 64 + n mod 64" by (simp add: q1_def)
  have d2: "q1 = q2 * 64 + q1 mod 64" by (simp add: q2_def)
  have d3: "q2 = q3 * 64 + q2 mod 64" by (simp add: q3_def)
  have "q3 * 262144 + q2 mod 64 * 4096 + q1 mod 64 * 64 + n mod 64 = n"
    using d1 d2 d3 by linarith
  then show "n div 262144 * 262144 + n div 4096 mod 64 * 4096 + n div 64 mod 64 * 64 + n mod 64 = n"
    by (simp add: e1 e2 q1_def [symmetric])
  have "q3 * 4096 + q2 mod 64 * 64 + q1 mod 64 = q1"
    using d2 d3 by linarith
  then show "n div 262144 * 4096 + n div 4096 mod 64 * 64 + n div 64 mod 64 = n div 64"
    by (simp add: e1 e2 q1_def [symmetric])
  have "q3 * 64 + q2 mod 64 = q2" using d3 by linarith
  then show "n div 262144 * 64 + n div 4096 mod 64 = n div 4096"
    by (simp add: e1 e2)
qed

lemma div_mod_256:
  fixes x c :: nat
  assumes "c < 256"
  shows "(x * 256 + c) mod 256 = c" and "(x * 256 + c) div 256 = x"
  using assms by simp_all

lemma join3:
  fixes a b c :: nat
  assumes "b < 256" "c < 256"
  defines "n \<equiv> a * 65536 + b * 256 + c"
  shows "n div 65536 = a" and "n div 256 mod 256 = b" and "n mod 256 = c"
proof -
  have n: "n = (a * 256 + b) * 256 + c" by (simp add: n_def)
  show "n mod 256 = c" unfolding n by (rule div_mod_256 [OF assms(2)])
  have q: "n div 256 = a * 256 + b" unfolding n by (rule div_mod_256 [OF assms(2)])
  show "n div 256 mod 256 = b" unfolding q by (rule div_mod_256 [OF assms(1)])
  have "n div 65536 = n div 256 div 256" by (simp add: div_mult2_eq)
  also have "\<dots> = a" unfolding q by (rule div_mod_256 [OF assms(1)])
  finally show "n div 65536 = a" .
qed

lemma top_sextet:
  fixes a b c :: nat
  assumes "a < 256" "b < 256" "c < 256"
  shows "(a * 65536 + b * 256 + c) div 262144 < 64"
proof -
  have "a * 65536 + b * 256 + c < 64 * 262144" using assms by simp
  then show ?thesis by (simp add: less_mult_imp_div_less)
qed

lemma sextets_lt: "\<forall>x\<in>set xs. x < 256 \<Longrightarrow> \<forall>s\<in>set (sextets xs). s < 64"
proof (induction xs rule: sextets.induct)
  case (1 a b c rest)
  then show ?case using top_sextet [of a b c] by (simp add: Let_def)
next
  case (2 a b)
  then show ?case using top_sextet [of a b 0] by (simp add: Let_def)
next
  case (3 a)
  then show ?case using top_sextet [of a 0 0] by (simp add: Let_def)
next
  case 4
  then show ?case by simp
qed

lemma octets_quad:
  "octets (s1 # s2 # s3 # s4 # rest) =
     [(s1 * 262144 + s2 * 4096 + s3 * 64 + s4) div 65536,
      (s1 * 262144 + s2 * 4096 + s3 * 64 + s4) div 256 mod 256,
      (s1 * 262144 + s2 * 4096 + s3 * 64 + s4) mod 256] @ octets rest"
  by (simp add: Let_def)

lemma octets_sextets: "\<forall>x\<in>set xs. x < 256 \<Longrightarrow> octets (sextets xs) = xs"
proof (induction xs rule: sextets.induct)
  case (1 a b c rest)
  define n where "n = a * 65536 + b * 256 + c"
  from 1 have lt: "a < 256" "b < 256" "c < 256" and ih: "octets (sextets rest) = rest"
    by simp_all
  have sx: "sextets (a # b # c # rest) =
      n div 262144 # n div 4096 mod 64 # n div 64 mod 64 # n mod 64 # sextets rest"
    by (simp add: Let_def n_def)
  have whole: "n div 262144 * 262144 + n div 4096 mod 64 * 4096 + n div 64 mod 64 * 64 + n mod 64 = n"
    by (rule split64)
  have "octets (sextets (a # b # c # rest)) = [n div 65536, n div 256 mod 256, n mod 256] @ rest"
    unfolding sx octets_quad whole ih ..
  also have "\<dots> = a # b # c # rest"
    using join3 [OF lt(2) lt(3), of a] by (simp add: n_def)
  finally show ?case .
next
  case (2 a b)
  define n where "n = a * 65536 + b * 256"
  from 2 have lt: "a < 256" "b < 256" by simp_all
  have sx: "sextets [a, b] = [n div 262144, n div 4096 mod 64, n div 64 mod 64]"
    by (simp add: Let_def n_def)
  have n64: "n div 64 = (a * 256 + b) * 4" by (simp add: n_def)
  have "octets (sextets [a, b]) = [(n div 64) div 4 div 256, (n div 64) div 4 mod 256]"
    unfolding sx by (simp add: Let_def split64(2))
  also have "\<dots> = [a, b]" unfolding n64 using lt by simp
  finally show ?case .
next
  case (3 a)
  define n where "n = a * 65536"
  have sx: "sextets [a] = [n div 262144, n div 4096 mod 64]"
    by (simp add: Let_def n_def)
  have n4096: "n div 4096 = a * 16" by (simp add: n_def)
  have "octets (sextets [a]) = [(n div 4096) div 16]"
    unfolding sx by (simp add: split64(3))
  also have "\<dots> = [a]" unfolding n4096 by simp
  finally show ?case .
next
  case 4
  then show ?case by simp
qed

lemma length_sextets: "length (sextets xs) mod 4 = [0, 2, 3] ! (length xs mod 3)"
proof (induction xs rule: sextets.induct)
  case (1 a b c rest)
  have "length (sextets (a # b # c # rest)) = length (sextets rest) + 4"
    by (simp add: Let_def)
  moreover have "length (a # b # c # rest) = length rest + 3" by simp
  ultimately show ?case using 1 by (simp only: mod_add_self2)
qed (simp_all add: Let_def)

lemma pad_length:
  shows "(length (sextets xs) + (3 - length xs mod 3) mod 3) mod 4 = 0"
    and "length (sextets xs) mod 4 \<noteq> 1"
proof -
  have m: "length xs mod 3 = 0 \<or> length xs mod 3 = 1 \<or> length xs mod 3 = 2" by linarith
  have l: "length (sextets xs) mod 4 = [0, 2, 3] ! (length xs mod 3)" by (rule length_sextets)
  from m l show "length (sextets xs) mod 4 \<noteq> 1" by auto
  from m l show "(length (sextets xs) + (3 - length xs mod 3) mod 3) mod 4 = 0"
    by (auto simp add: mod_add_left_eq [symmetric, of "length (sextets xs)"] simp del: mod_add_left_eq)
qed

lemma those_b64index:
  "\<forall>s\<in>set ss. s < 64 \<Longrightarrow> those (map b64index (map b64char ss)) = Some ss"
  by (induction ss) (simp_all add: b64index_b64char)

lemma filter_btoa_body:
  assumes "\<forall>s\<in>set ss. s < 64"
  shows "filter (\<lambda>c. \<not> ascii_whitespace c) (map b64char ss @ replicate k CHR ''='')
         = map b64char ss @ replicate k CHR ''=''"
proof -
  have "\<forall>c\<in>set (map b64char ss @ replicate k CHR ''=''). \<not> ascii_whitespace c"
    using assms b64char_plain by (auto simp add: ascii_whitespace_def)
  then show ?thesis by (simp only: filter_True)
qed

lemma strip_padding_body:
  assumes ss: "\<forall>s\<in>set ss. s < 64" and k: "k \<le> 2"
    and len: "(length ss + k) mod 4 = 0"
  shows "strip_padding (map b64char ss @ replicate k CHR ''='') = map b64char ss"
proof -
  let ?body = "map b64char ss"
  have lastb: "ss \<noteq> [] \<Longrightarrow> last ?body \<noteq> CHR ''=''"
    using ss b64char_plain [of "last ss"] by (simp add: last_map)
  from k consider "k = 0" | "k = 1" | "k = 2" by linarith
  then show ?thesis
  proof cases
    case 1
    then show ?thesis using lastb len
      by (cases "ss = []") (simp_all add: strip_padding_def)
  next
    case 2
    with len have ne: "ss \<noteq> []" by auto
    have "map b64char ss @ replicate k CHR ''='' = ?body @ [CHR ''='']"
      using 2 by simp
    then show ?thesis using lastb [OF ne] len 2 ne
      by (simp add: strip_padding_def butlast_append)
  next
    case 3
    have "map b64char ss @ replicate k CHR ''='' = (?body @ [CHR ''='']) @ [CHR ''='']"
      using 3 by (simp add: numeral_2_eq_2)
    then show ?thesis using len 3
      by (simp add: strip_padding_def butlast_append)
  qed
qed

lemma atob_btoa: "atob (btoa s) = Some s"
proof -
  let ?xs = "map of_char s :: nat list"
  let ?ss = "sextets ?xs"
  let ?k = "(3 - length s mod 3) mod 3"
  have xs: "\<forall>x\<in>set ?xs. x < 256" by simp
  have ss: "\<forall>s\<in>set ?ss. s < 64" by (rule sextets_lt [OF xs])
  have k: "?k \<le> 2" by linarith
  have len: "(length ?ss + ?k) mod 4 = 0" using pad_length(1) [of ?xs] by simp
  have ne1: "length (map b64char ?ss) mod 4 \<noteq> 1" using pad_length(2) [of ?xs] by simp
  have "strip_padding (filter (\<lambda>c. \<not> ascii_whitespace c) (btoa s)) = map b64char ?ss"
    unfolding btoa_def filter_btoa_body [OF ss] by (rule strip_padding_body [OF ss k len])
  then have "atob (btoa s) = Some (map char_of (octets ?ss))"
    using ne1 by (simp add: atob_def those_b64index [OF ss] del: map_map)
  also have "\<dots> = Some s" by (simp add: octets_sextets [OF xs] comp_def)
  finally show ?thesis .
qed

lemma bytes_of_binary_string:
  "map (\<lambda>c. word_of_nat (of_char c)) (map (\<lambda>b. char_of (unat b)) (b :: byte list)) = b"
proof (induction b)
  case Nil
  then show ?case by simp
next
  case (Cons x xs)
  have "unat x < 256" using unsigned_less [of x, where ?'a = nat] by simp
  then have "word_of_nat (unat x mod 256) = x" by simp
  with Cons show ?case by simp
qed

lemma base64_decodes_encoded: "base64ToArrayBuffer (arrayBufferToBase64 b) = Inr b"
  by (simp add: base64ToArrayBuffer_def arrayBufferToBase64_def atob_btoa bytes_of_binary_string
      del: map_map)

text \<open>
  Claim C9. For every byte sequence \<open>b\<close>, the empty one included, decoding the base64
  text of \<open>b\<close> gives \<open>b\<close> back: \<open>base64ToArrayBuffer\<close> does not fail on what
  \<open>arrayBufferToBase64\<close> produces, and its result is \<open>b\<close>.
\<close>

theorem base64_round_trip: "base64ToArrayBuffer (arrayBufferToBase64 b) = Inr b"
  by (rule base64_decodes_encoded)

theorem base64_round_trip_witness:
  "base64ToArrayBuffer (arrayBufferToBase64 []) = Inr []
   \<and> arrayBufferToBase64 [0, 0, 1, 0] = ''AAABAA==''
   \<and> base64ToArrayBuffer ''AAABAA=='' = Inr [0, 0, 1, 0]"
proof -
  have "arrayBufferToBase64 [0, 0, 1, 0] = ''AAABAA==''"
    by (simp add: arrayBufferToBase64_def btoa_def b64char_def b64chars_def numeral_2_eq_2)
  then show ?thesis
    using base64_round_trip [of "[]"] base64_round_trip [of "[0, 0, 1, 0]"] by simp
qed

subsection \<open>PCM16\<close>

lemma sint16_of_int:
  "- 32768 \<le> v \<Longrightarrow> v < 32768 \<Longrightarrow> sint (word_of_int v :: 16 word) = v"
  by (simp add: signed_of_int signed_take_bit_int_eq_self)

lemma int16_bytes_unat:
  fixes w :: "16 word"
  shows "unat (ucast w :: byte) + 256 * unat (ucast (drop_bit 8 w) :: byte) = unat w"
proof -
  have lt: "unat w < 65536" using unsigned_less [of w, where ?'a = nat] by simp
  have lo: "unat (ucast w :: byte) = unat w mod 256"
    by (simp add: unsigned_ucast_eq take_bit_eq_mod)
  have "unat (ucast (drop_bit 8 w) :: byte) = unat w div 256 mod 256"
    by (simp add: unsigned_ucast_eq unat_drop_bit_eq take_bit_eq_mod drop_bit_eq_div unat_div)
  moreover have "unat w div 256 < 256" using lt by simp
  ultimately have hi: "unat (ucast (drop_bit 8 w) :: byte) = unat w div 256" by simp
  show ?thesis unfolding lo hi by simp
qed

lemma int16_bytes_join:
  fixes w :: "16 word"
  shows "word_of_nat (unat (ucast w :: byte) + 256 * unat (ucast (drop_bit 8 w) :: byte)) = w"
  unfolding int16_bytes_unat by simp

lemma Int16Array_pair:
  "Int16Array (int16_bytes w @ rest) =
     (case Int16Array rest of Inl e \<Rightarrow> Inl e | Inr elems \<Rightarrow> Inr (w # elems))"
  unfolding int16_bytes_def
  by (simp only: append.simps Int16Array.simps int16_bytes_join)

lemma Int16Array_bytes: "Int16Array (concat (map int16_bytes elems)) = Inr elems"
  by (induction elems) (simp_all add: Int16Array_pair)

lemma pairs_nth:
  "i < length xs \<Longrightarrow>
     concat (map (\<lambda>x. [f x, g x]) xs) ! (2 * i) = f (xs ! i)
     \<and> concat (map (\<lambda>x. [f x, g x]) xs) ! (2 * i + 1) = g (xs ! i)"
proof (induction xs arbitrary: i)
  case Nil
  then show ?case by simp
next
  case (Cons x xs)
  show ?case
  proof (cases i)
    case 0
    then show ?thesis by simp
  next
    case (Suc j)
    with Cons.prems have "j < length xs" by simp
    from Cons.IH [OF this] Suc show ?thesis by simp
  qed
qed

lemma length_pcm16: "length (convertFloat32ToPCM16 xs) = 2 * length xs"
  by (induction xs) (simp_all add: convertFloat32ToPCM16_def int16_bytes_def)

lemma pcm16_little_endian:
  assumes "i < length xs"
  shows "int (unat (convertFloat32ToPCM16 xs ! (2 * i)))
         + 256 * int (unat (convertFloat32ToPCM16 xs ! (2 * i + 1)))
         = sint (pcm16_sample (xs ! i)) mod 65536"
proof -
  let ?w = "pcm16_sample (xs ! i)"
  have b: "convertFloat32ToPCM16 xs =
      concat (map (\<lambda>x. [ucast (pcm16_sample x), ucast (drop_bit 8 (pcm16_sample x))]) xs)"
    by (simp add: convertFloat32ToPCM16_def int16_bytes_def)
  have "int (unat (convertFloat32ToPCM16 xs ! (2 * i)))
         + 256 * int (unat (convertFloat32ToPCM16 xs ! (2 * i + 1)))
      = int (unat (ucast ?w :: byte) + 256 * unat (ucast (drop_bit 8 ?w) :: byte))"
    unfolding b using pairs_nth [OF assms, of "\<lambda>x. ucast (pcm16_sample x) :: byte"
        "\<lambda>x. ucast (drop_bit 8 (pcm16_sample x)) :: byte"]
    by simp
  also have "\<dots> = uint ?w" unfolding int16_bytes_unat by simp
  also have "\<dots> = sint ?w mod 65536" by (simp add: uint_sint take_bit_eq_mod)
  finally show ?thesis .
qed

text \<open>The scaled value of a clamped sample fits a signed 16-bit integer.\<close>

lemma scaled_range:
  fixes c :: real
  assumes "- 1 \<le> c" "c \<le> 1"
  defines "y \<equiv> (if c < 0 then c * 32768 else c * 32767)"
  shows "- 32768 \<le> js_truncate y" and "js_truncate y < 32768"
proof -
  show "- 32768 \<le> js_truncate y"
  proof (cases "c < 0")
    case True
    then have "- 32768 \<le> y" using assms(1) by (simp add: y_def)
    then have "- 32768 \<le> \<lceil>y\<rceil>" by linarith
    moreover have "y < 0" using True by (simp add: y_def)
    ultimately show ?thesis by (simp add: js_truncate_def)
  next
    case False
    then have "0 \<le> y" by (simp add: y_def)
    then have "0 \<le> \<lfloor>y\<rfloor>" by simp
    then show ?thesis using \<open>0 \<le> y\<close> by (simp add: js_truncate_def)
  qed
  show "js_truncate y < 32768"
  proof (cases "c < 0")
    case True
    then have "y < 0" by (simp add: y_def)
    then have "\<lceil>y\<rceil> \<le> 0" by (simp add: ceiling_le_zero)
    then show ?thesis using \<open>y < 0\<close> by (simp add: js_truncate_def)
  next
    case False
    then have "0 \<le> y" "y \<le> 32767" using assms(2) by (simp_all add: y_def)
    then have "\<lfloor>y\<rfloor> \<le> 32767" by linarith
    then show ?thesis using \<open>0 \<le> y\<close> by (simp add: js_truncate_def)
  qed
qed

lemma pcm16_sample_Finite:
  "sint (pcm16_sample (Finite r)) =
     js_truncate (if max (- 1) (min 1 r) < 0 then max (- 1) (min 1 r) * 32768
                  else max (- 1) (min 1 r) * 32767)"
proof -
  define c where "c = max (- 1) (min 1 r)"
  have c: "- 1 \<le> c" "c \<le> 1" by (simp_all add: c_def)
  have s: "Math_max (- 1) (Math_min 1 (Finite r)) = Finite c" by (simp add: c_def)
  have "pcm16_sample (Finite r) =
      ToInt16 (if negative (Finite c) then times_const (Finite c) 32768
               else times_const (Finite c) 32767)"
    by (simp only: pcm16_sample_def Let_def s)
  also have "\<dots> = word_of_int (js_truncate (if c < 0 then c * 32768 else c * 32767))"
    by simp
  finally have "sint (pcm16_sample (Finite r)) =
      js_truncate (if c < 0 then c * 32768 else c * 32767)"
    using scaled_range [OF c] by (simp only: sint16_of_int)
  then show ?thesis unfolding c_def .
qed

lemma pcm16_sample_special:
  "sint (pcm16_sample PosInfinity) = 32767"
  "sint (pcm16_sample NegInfinity) = - 32768"
  "sint (pcm16_sample NaN) = 0"
  by (simp_all add: pcm16_sample_def js_truncate_def)

text \<open>Rounding to single precision.\<close>

lemma round_even_of_int: "round_even (of_int n) = n"
  by (simp add: round_even_def)

lemma round_even_div:
  fixes k :: int
  shows "round_even (of_int k / 32767) =
           (if k mod 32767 \<le> 16383 then k div 32767 else k div 32767 + 1)"
proof -
  define a where "a = k div 32767"
  define r where "r = k mod 32767"
  have k: "k = 32767 * a + r" by (simp add: a_def r_def)
  have r: "0 \<le> r" "r < 32767" by (simp_all add: r_def)
  have fl: "\<lfloor>real_of_int k / 32767\<rfloor> = a"
    using floor_divide_of_int_eq [of k 32767, where ?'a = real] by (simp add: a_def)
  have fr: "real_of_int k / 32767 - of_int a = of_int r / 32767"
    by (simp add: k field_simps)
  have half: "(real_of_int r / 32767 < 1 / 2) = (r \<le> 16383)"
    "(1 / 2 < real_of_int r / 32767) = (16384 \<le> r)"
    by auto
  have "round_even (of_int k / 32767) = (if r \<le> 16383 then a else a + 1)"
    unfolding round_even_def Let_def fl fr half by auto
  then show ?thesis by (simp add: a_def r_def)
qed

lemma pow2_mod_32767: "(2::nat) ^ j mod 32767 = 2 ^ (j mod 15)"
proof -
  define t :: nat where "t = 2 ^ (j mod 15)"
  define w :: nat where "w = (2 ^ 15) ^ (j div 15)"
  have t: "t \<le> 16384"
  proof -
    have p: "(2::nat) ^ 14 = 16384" by simp
    have "(2::nat) ^ (j mod 15) \<le> 2 ^ 14" by (rule power_increasing) simp_all
    then show ?thesis unfolding t_def p .
  qed
  have "(2::nat) ^ j = 2 ^ (15 * (j div 15) + j mod 15)" by simp
  also have "\<dots> = w * t" by (simp only: power_add power_mult w_def t_def)
  finally have e: "(2::nat) ^ j = w * t" .
  have "w mod 32767 = ((2 ^ 15) mod 32767) ^ (j div 15) mod 32767"
    unfolding w_def by (simp only: power_mod)
  then have w: "w mod 32767 = 1" by simp
  have "w * t mod 32767 = (w mod 32767) * t mod 32767" by (simp only: mod_mult_left_eq)
  also have "\<dots> = t" using t by (simp add: w)
  finally show ?thesis by (simp add: e t_def)
qed

lemma pow2_residue:
  shows "1 \<le> (2::int) ^ j mod 32767" and "(2::int) ^ j mod 32767 \<le> 16384"
proof -
  have "int ((2::nat) ^ j mod 32767) = (2::int) ^ j mod 32767"
    by (simp add: zmod_int)
  then have e: "(2::int) ^ j mod 32767 = int (2 ^ (j mod 15))"
    by (simp add: pow2_mod_32767)
  have p: "(2::nat) ^ 14 = 16384" by simp
  have "(2::nat) ^ (j mod 15) \<le> 2 ^ 14" by (rule power_increasing) simp_all
  then have "(2::nat) ^ (j mod 15) \<le> 16384" unfolding p .
  then have "int (2 ^ (j mod 15)) \<le> 16384" by linarith
  then show "(2::int) ^ j mod 32767 \<le> 16384" unfolding e .
  have "1 \<le> int (2 ^ (j mod 15))" by simp
  then show "1 \<le> (2::int) ^ j mod 32767" unfolding e .
qed

text \<open>Between two neighbouring fifteen-bit fractions, on a binary grid.\<close>

lemma grid:
  fixes v K :: int and j :: nat
  assumes lo: "v * 2 ^ j \<le> K * 32767" and hi: "K * 32767 < (v + 1) * 2 ^ j"
  shows "\<bar>K - round_even (of_int (v * 2 ^ j) / 32767)\<bar> * 32767 < 2 ^ j"
proof -
  define P where "P = v * (2::int) ^ j"
  define M where "M = (2::int) ^ j"
  define a where "a = P div 32767"
  define r where "r = P mod 32767"
  define m where "m = M div 32767"
  define \<rho> where "\<rho> = M mod 32767"
  have P: "P = 32767 * a + r" and r: "0 \<le> r" "r < 32767" by (simp_all add: a_def r_def)
  have M: "M = 32767 * m + \<rho>" by (simp add: m_def \<rho>_def)
  have \<rho>: "1 \<le> \<rho>" "\<rho> \<le> 16384"
    unfolding \<rho>_def M_def by (rule pow2_residue(1), rule pow2_residue(2))
  have lo': "P \<le> K * 32767" using lo by (simp add: P_def)
  have hi': "K * 32767 < P + M" using hi by (simp add: P_def M_def algebra_simps)
  have N: "round_even (of_int P / 32767) = (if r \<le> 16383 then a else a + 1)"
    unfolding a_def r_def by (rule round_even_div)
  have "\<bar>K - (if r \<le> 16383 then a else a + 1)\<bar> * 32767 < M"
  proof (cases "r \<le> 16383")
    case True
    have 1: "a \<le> K" using P r lo' by linarith
    have 2: "K \<le> a + m" using P M r \<rho> hi' True by linarith
    have "32767 * K - 32767 * a < M" using 1 2 M \<rho> by linarith
    moreover have "\<bar>K - a\<bar> * 32767 = 32767 * K - 32767 * a"
      using 1 by (simp add: algebra_simps)
    ultimately have "\<bar>K - a\<bar> * 32767 < M" by (simp only:)
    then show ?thesis using True by simp
  next
    case False
    have 1: "a + 1 \<le> K" using P r lo' False by linarith
    have 2: "K \<le> a + m + 1" using P M r \<rho> hi' by linarith
    have "32767 * K - 32767 * a - 32767 < M" using 1 2 M \<rho> by linarith
    moreover have "\<bar>K - (a + 1)\<bar> * 32767 = 32767 * K - 32767 * a - 32767"
      using 1 by (simp add: algebra_simps)
    ultimately have "\<bar>K - (a + 1)\<bar> * 32767 < M" by (simp only:)
    then show ?thesis using False by simp
  qed
  then show ?thesis unfolding N [symmetric] P_def M_def .
qed

lemma doublings_mono: "q \<le> x \<Longrightarrow> doublings n x \<le> doublings n q"
  by (induction n arbitrary: q x) auto


lemma halvings_small: "y < 2 \<Longrightarrow> halvings n y = 0"
  by (cases n) simp_all

lemma ulp_unit: "\<bar>y\<bar> \<le> 1 \<Longrightarrow> ulp y = 1 / 2 ^ grid_bits y"
  by (simp add: ulp_def grid_bits_def halvings_small)

lemma grid_bits_mono: "0 \<le> q \<Longrightarrow> q \<le> x \<Longrightarrow> grid_bits x \<le> grid_bits q"
  by (simp add: grid_bits_def doublings_mono)

lemma grid_bits_ge: "23 \<le> grid_bits y"
  by (simp add: grid_bits_def)

lemma fround_unit:
  "\<bar>y\<bar> \<le> 1 \<Longrightarrow> fround y = of_int (round_even (y * 2 ^ grid_bits y)) / 2 ^ grid_bits y"
  by (simp add: fround_def ulp_unit)

text \<open>A single-precision value at or above \<open>q\<close> lies on the grid around \<open>q\<close>.\<close>

lemma on_grid:
  assumes fx: "fround x = x" and q: "0 \<le> q" "q \<le> x" and x: "x \<le> 1"
  shows "\<exists>K::int. x = of_int K / 2 ^ grid_bits q"
proof -
  let ?J = "grid_bits q" and ?Jx = "grid_bits x"
  have le: "?Jx \<le> ?J" using q by (rule grid_bits_mono)
  define n where "n = round_even (x * 2 ^ ?Jx)"
  have "\<bar>x\<bar> \<le> 1" using q x by simp
  then have "x = of_int n / 2 ^ ?Jx" using fx by (simp add: fround_unit n_def)
  moreover have "(2::real) ^ ?J = 2 ^ ?Jx * 2 ^ (?J - ?Jx)"
    using le by (simp add: power_add [symmetric])
  ultimately have "x = of_int (n * 2 ^ (?J - ?Jx)) / 2 ^ ?J" by simp
  then show ?thesis by blast
qed

lemma decode_nonneg:
  assumes fx: "fround x = x" and x: "0 \<le> x" "x \<le> 1"
  shows "\<bar>x - fround (of_int \<lfloor>x * 32767\<rfloor> / 32767)\<bar> < 1 / 32767"
proof -
  define v where "v = \<lfloor>x * 32767\<rfloor>"
  define q where "q = real_of_int v / 32767"
  define J where "J = grid_bits q"
  have v0: "0 \<le> v" using x by (simp add: v_def)
  have vl: "real_of_int v \<le> x * 32767" and vh: "x * 32767 < real_of_int v + 1"
    unfolding v_def by linarith+
  have q0: "0 \<le> q" using v0 by (simp add: q_def)
  have qx: "q \<le> x" using vl by (simp add: q_def field_simps)
  have q1: "\<bar>q\<bar> \<le> 1" using q0 qx x by simp
  obtain K :: int where K: "x = of_int K / 2 ^ J"
    using on_grid [OF fx q0 qx x(2)] unfolding J_def by blast
  have p: "(0::real) < 2 ^ J" by simp
  have "real_of_int v * 2 ^ J \<le> real_of_int K * 32767"
    using vl p unfolding K by (simp add: field_simps)
  then have "real_of_int (v * 2 ^ J) \<le> real_of_int (K * 32767)" by simp
  then have lo: "v * 2 ^ J \<le> K * 32767" by (simp only: of_int_le_iff)
  have "real_of_int K * 32767 < (real_of_int v + 1) * 2 ^ J"
    using vh p unfolding K by (simp add: field_simps)
  then have "real_of_int (K * 32767) < real_of_int ((v + 1) * 2 ^ J)" by simp
  then have hi: "K * 32767 < (v + 1) * 2 ^ J" by (simp only: of_int_less_iff)
  define N where "N = round_even (of_int (v * 2 ^ J) / 32767)"
  have g: "\<bar>K - N\<bar> * 32767 < 2 ^ J" unfolding N_def using lo hi by (rule grid)
  have e: "q * 2 ^ J = of_int (v * 2 ^ J) / 32767" by (simp add: q_def)
  have d: "fround q = of_int N / 2 ^ J"
    using fround_unit [OF q1] unfolding J_def [symmetric] e N_def [symmetric] .
  have "x - fround q = of_int (K - N) / 2 ^ J"
    unfolding K d by (simp add: diff_divide_distrib)
  then have "\<bar>x - fround q\<bar> = real_of_int \<bar>K - N\<bar> / 2 ^ J" by simp
  moreover have "real_of_int (\<bar>K - N\<bar> * 32767) < real_of_int (2 ^ J)"
    using g by (simp only: of_int_less_iff)
  then have "real_of_int \<bar>K - N\<bar> * 32767 < 2 ^ J" by simp
  then have "real_of_int \<bar>K - N\<bar> / 2 ^ J < 1 / 32767"
    using p by (simp add: field_simps)
  ultimately show ?thesis by (simp add: q_def v_def)
qed

lemma fround_fraction:
  fixes v :: int
  assumes "\<bar>v\<bar> \<le> 32768"
  shows "fround (of_int v / 32768) = of_int v / 32768"
proof -
  define q where "q = real_of_int v / 32768"
  define J where "J = grid_bits q"
  have q1: "\<bar>q\<bar> \<le> 1"
  proof -
    have "\<bar>real_of_int v\<bar> \<le> 32768" using assms by linarith
    then show ?thesis by (simp add: q_def)
  qed
  have J: "15 \<le> J" using grid_bits_ge [of q] by (simp add: J_def)
  then have "(2::real) ^ J = 2 ^ (15 + (J - 15))" by simp
  then have s: "(2::real) ^ J = 32768 * 2 ^ (J - 15)" by (simp only: power_add) simp
  have e: "q * 2 ^ J = of_int (v * 2 ^ (J - 15))" by (simp add: q_def s)
  have "fround q = of_int (round_even (of_int (v * 2 ^ (J - 15)))) / 2 ^ J"
    using fround_unit [OF q1] unfolding J_def [symmetric] e .
  then have "fround q = of_int (v * 2 ^ (J - 15)) / 2 ^ J"
    by (simp only: round_even_of_int)
  also have "\<dots> = q" by (simp add: q_def s)
  finally show ?thesis by (simp add: q_def)
qed

lemma fround_zero: "fround 0 = 0"
  by (simp add: fround_def round_even_def)

lemma decode_negative:
  assumes x: "- 1 \<le> x" "x < 0"
  shows "\<bar>x - fround (of_int \<lceil>x * 32768\<rceil> / (if \<lceil>x * 32768\<rceil> < 0 then 32768 else 32767))\<bar>
         < 1 / 32767"
proof -
  define v where "v = \<lceil>x * 32768\<rceil>"
  have vl: "x * 32768 \<le> real_of_int v" and vh: "real_of_int v - 1 < x * 32768"
    unfolding v_def by linarith+
  have v0: "v \<le> 0" using x by (simp add: v_def ceiling_le_zero)
  have vm: "- 32768 \<le> v"
  proof -
    have "- 32768 \<le> x * 32768" using x by simp
    then have "- 32768 \<le> real_of_int v" using vl by linarith
    then show ?thesis by linarith
  qed
  show ?thesis
  proof (cases "v < 0")
    case True
    have "\<bar>v\<bar> \<le> 32768" using vm v0 by simp
    then have f: "fround (of_int v / 32768) = of_int v / 32768" by (rule fround_fraction)
    have "x - real_of_int v / 32768 = (x * 32768 - real_of_int v) / 32768"
      by (simp add: diff_divide_distrib)
    moreover have "(x * 32768 - real_of_int v) / 32768 \<le> 0" using vl by simp
    moreover have "- (1 / 32768) < (x * 32768 - real_of_int v) / 32768"
      using vh by (simp add: field_simps)
    ultimately have "\<bar>x - real_of_int v / 32768\<bar> < 1 / 32768" by linarith
    then have "\<bar>x - real_of_int v / 32768\<bar> < 1 / 32767" by simp
    then show ?thesis using True by (simp add: v_def [symmetric] f)
  next
    case False
    with v0 have z: "v = 0" by simp
    have "- 1 < x * 32768" using vh by (simp add: z)
    then have "- (1 / 32768) < x" by (simp add: field_simps)
    then have "\<bar>x\<bar> < 1 / 32767" using x by simp
    then show ?thesis by (simp add: v_def [symmetric] z fround_zero)
  qed
qed

lemma doublings_numeral:
  "doublings (numeral k) y = (if 1 \<le> y then 0 else Suc (doublings (pred_numeral k) (2 * y)))"
  by (simp add: numeral_eq_Suc)

lemma fround_values:
  "fround (8191 / 32767) = 32765 / 131072"
  "fround (1 / 32767) = 32769 / 1073741824"
  "fround (1 / 4) = 1 / 4"
  "fround (- 1) = - 1"
proof -
  have g: "grid_bits (8191 / 32767) = 26" "grid_bits (1 / 32767) = 38"
    by (simp_all add: grid_bits_def doublings_numeral)
  show "fround (8191 / 32767) = 32765 / 131072"
    by (simp add: fround_unit g round_even_def)
  show "fround (1 / 32767) = 32769 / 1073741824"
    by (simp add: fround_unit g round_even_def)
  show "fround (1 / 4) = 1 / 4" using fround_fraction [of 8192] by simp
  show "fround (- 1) = - 1" using fround_fraction [of "- 32768"] by simp
qed

lemma quantization:
  assumes "fround r = r" and "- 1 \<le> r" and "r \<le> 1"
  shows "\<bar>r - pcm16_to_float (pcm16_sample (Finite r))\<bar> < 1 / 32767"
proof -
  define v where "v = sint (pcm16_sample (Finite r))"
  have c: "max (- 1) (min 1 r) = r" using assms(2,3) by simp
  have v: "v = js_truncate (if r < 0 then r * 32768 else r * 32767)"
    unfolding v_def using pcm16_sample_Finite [of r] by (simp only: c)
  have f: "pcm16_to_float (pcm16_sample (Finite r)) =
      fround (real_of_int v / (if v < 0 then 32768 else 32767))"
    by (simp add: pcm16_to_float_def v_def)
  show ?thesis
  proof (cases "r < 0")
    case True
    then have "r * 32768 < 0" by simp
    then have "v = \<lceil>r * 32768\<rceil>" using True by (simp add: v js_truncate_def)
    then show ?thesis
      using decode_negative [OF assms(2) True] by (simp only: f)
  next
    case False
    then have r0: "0 \<le> r" by simp
    then have "0 \<le> r * 32767" by simp
    then have vf: "v = \<lfloor>r * 32767\<rfloor>" using False by (simp add: v js_truncate_def)
    have "0 \<le> v" using r0 by (simp add: vf)
    then have "pcm16_to_float (pcm16_sample (Finite r)) = fround (real_of_int \<lfloor>r * 32767\<rfloor> / 32767)"
      by (simp add: f vf)
    then show ?thesis
      using decode_nonneg [OF assms(1) r0 assms(3)] by (simp only:)
  qed
qed

lemma decode_encode:
  "decodePCM16 (convertFloat32ToPCM16 xs) = Inr (map (\<lambda>x. pcm16_to_float (pcm16_sample x)) xs)"
proof -
  have "convertFloat32ToPCM16 xs = concat (map int16_bytes (map pcm16_sample xs))"
    by (simp add: convertFloat32ToPCM16_def comp_def)
  then have "decodePCM16 (convertFloat32ToPCM16 xs) = Inr (map pcm16_to_float (map pcm16_sample xs))"
    by (simp only: decodePCM16_def Int16Array_bytes sum.case)
  then show ?thesis by (simp add: comp_def)
qed

text \<open>
  Claim C6, as stated, fails in its rounding: the sample \<open>1/4\<close> scales to
  \<open>8191.75\<close>, whose nearest integer is 8192, and \<open>convertFloat32ToPCM16\<close>
  stores 8191. The code has no rounding step; the store into the \<open>Int16Array\<close>
  truncates.
\<close>

theorem rounding_counterexample:
  "sint (pcm16_sample (Finite (1 / 4))) = 8191 \<and> encodeSample_nearest (1 / 4) = 8192"
  by (simp add: pcm16_sample_def js_truncate_def encodeSample_nearest_def round_def)

text \<open>
  Claim C6, amended. \<open>convertFloat32ToPCM16\<close> is a function of its input. It gives two
  bytes for each sample, the signed 16-bit value in two's complement, low byte first. For
  a finite sample the value is the sample clamped to \<open>[-1, 1]\<close>, scaled by 32768 when
  negative and by 32767 otherwise, and truncated toward zero. Positive infinity gives
  32767, negative infinity gives -32768, and NaN, which is not clamped, gives 0.
\<close>

theorem pcm16_encoding_truncates:
  "length (convertFloat32ToPCM16 xs) = 2 * length xs
   \<and> (\<forall>i<length xs.
        int (unat (convertFloat32ToPCM16 xs ! (2 * i)))
        + 256 * int (unat (convertFloat32ToPCM16 xs ! (2 * i + 1)))
        = sint (pcm16_sample (xs ! i)) mod 65536)
   \<and> sint (pcm16_sample (Finite r)) =
       (let c = max (- 1) (min 1 r);
            y = (if c < 0 then c * 32768 else c * 32767)
        in if y < 0 then \<lceil>y\<rceil> else \<lfloor>y\<rfloor>)
   \<and> sint (pcm16_sample PosInfinity) = 32767
   \<and> sint (pcm16_sample NegInfinity) = - 32768
   \<and> sint (pcm16_sample NaN) = 0"
  using pcm16_little_endian [of _ xs]
  by (simp add: length_pcm16 pcm16_sample_Finite pcm16_sample_special js_truncate_def Let_def)

theorem pcm16_encoding_truncates_witness:
  "0 < length [Finite (1 / 4)]
   \<and> int (unat (convertFloat32ToPCM16 [Finite (1 / 4)] ! 0))
      + 256 * int (unat (convertFloat32ToPCM16 [Finite (1 / 4)] ! 1)) = 8191
   \<and> sint (pcm16_sample (Finite (- 3 / 131072))) = 0
   \<and> sint (pcm16_sample (Finite (- 5))) = - 32768"
proof -
  have "sint (pcm16_sample (Finite (1 / 4))) = 8191"
    by (simp add: pcm16_sample_def js_truncate_def)
  then show ?thesis
    using pcm16_encoding_truncates [of "[Finite (1 / 4)]" "- 3 / 131072"]
      pcm16_encoding_truncates [of "[]" "- 5"]
    by simp
qed

text \<open>
  Claim C7. For every sequence of single-precision samples in \<open>[-1, 1]\<close>, decoding
  the encoded sequence succeeds and gives one value for each sample: the signed 16-bit
  value divided by 32768 when negative and by 32767 otherwise, as stored in the
  \<open>Float32Array\<close> of the playback buffer. Each decoded value differs from its sample
  by less than \<open>1/32767\<close>.
\<close>

theorem round_trip_quantization:
  assumes "\<forall>r\<in>set rs. - 1 \<le> r \<and> r \<le> 1 \<and> fround r = r"
  shows "\<exists>ys. decodePCM16 (convertFloat32ToPCM16 (map Finite rs)) = Inr ys
     \<and> list_all2 (\<lambda>r y. \<bar>r - y\<bar> < 1 / 32767) rs ys"
proof -
  let ?ys = "map (\<lambda>r. pcm16_to_float (pcm16_sample (Finite r))) rs"
  have d: "decodePCM16 (convertFloat32ToPCM16 (map Finite rs)) = Inr ?ys"
    by (simp add: decode_encode comp_def)
  have "\<And>r. r \<in> set rs \<Longrightarrow> \<bar>r - pcm16_to_float (pcm16_sample (Finite r))\<bar> < 1 / 32767"
    using assms quantization by blast
  then have "list_all2 (\<lambda>r y. \<bar>r - y\<bar> < 1 / 32767) rs ?ys"
    unfolding list_all2_map2 list_all2_same by blast
  with d show ?thesis by blast
qed

theorem round_trip_quantization_witness:
  "- 1 \<le> (1 / 4 :: real) \<and> (1 / 4 :: real) \<le> 1 \<and> fround (1 / 4) = 1 / 4
   \<and> - 1 \<le> (- 1 :: real) \<and> (- 1 :: real) \<le> 1 \<and> fround (- 1) = - 1
   \<and> decodePCM16 (convertFloat32ToPCM16 (map Finite [1 / 4, - 1]))
       = Inr [32765 / 131072, - 1]
   \<and> \<bar>1 / 4 - 32765 / 131072\<bar> < (1 / 32767 :: real)"
proof -
  have "pcm16_to_float (pcm16_sample (Finite (1 / 4))) = 32765 / 131072"
    and "pcm16_to_float (pcm16_sample (Finite (- 1))) = - 1"
    by (simp_all add: pcm16_sample_def js_truncate_def pcm16_to_float_def fround_values)
  then have v: "decodePCM16 (convertFloat32ToPCM16 (map Finite [1 / 4, - 1]))
      = Inr [32765 / 131072, - 1]"
    by (simp add: decode_encode)
  have h: "\<forall>r\<in>set [1 / 4, - 1 :: real]. - 1 \<le> r \<and> r \<le> 1 \<and> fround r = r"
    by (simp add: fround_values)
  from round_trip_quantization [OF h] v
  have "\<bar>1 / 4 - 32765 / 131072\<bar> < (1 / 32767 :: real)" by auto
  with v show ?thesis by (simp add: fround_values)
qed

subsection \<open>The session states\<close>

lemma session_states:
  "readyState connecting_client = CONNECTING"
  "readyState open_client = OPEN"
  "ws open_client = Some 0"
  "links open_client = [OPEN]"
  "wire open_client = []"
  "handlers_of open_client ''close'' = [3]"
  "handlers_of open_client ''*'' = [7]"
  "audioProcessor open_client = Some 2"
  "mediaStream open_client = Some 1"
  "audioContext open_client = Some 0"
  "uuids open_client = 0"
  by (simp_all add: open_client_def connecting_client_def session_client_def new_client_def
      ws_open_def startAudioCaptureSync_def connect_def on_def handlers_of_def readyState_def
      Let_def)

lemma open_client_devlog: "devlog open_client = []"
  by (simp add: open_client_def connecting_client_def session_client_def new_client_def
      ws_open_def startAudioCaptureSync_def connect_def on_def Let_def)

subsection \<open>Closing\<close>

lemma stopAudioCapture_fields:
  "audioProcessor (stopAudioCapture s) = None"
  "mediaStream (stopAudioCapture s) = None"
  "audioContext (stopAudioCapture s) = None"
  "ws (stopAudioCapture s) = ws s"
  "links (stopAudioCapture s) = links s"
  "wire (stopAudioCapture s) = wire s"
  "playing (stopAudioCapture s) = playing s"
  "started (stopAudioCapture s) = started s"
  by (simp_all add: stopAudioCapture_def Let_def split: option.splits)

lemma stopAudioCapture_stopped:
  "audioProcessor s = None \<Longrightarrow> mediaStream s = None \<Longrightarrow> audioContext s = None
   \<Longrightarrow> stopAudioCapture s = s"
  by (simp add: stopAudioCapture_def)

lemma cleanup_fields:
  "audioProcessor (cleanup s) = None"
  "mediaStream (cleanup s) = None"
  "audioContext (cleanup s) = None"
  "audioQueue (cleanup s) = []"
  "isPlaying (cleanup s) = False"
  "eventHandlers (cleanup s) = Map.empty"
  "ws (cleanup s) = ws s"
  "links (cleanup s) = links s"
  "wire (cleanup s) = wire s"
  by (simp_all add: cleanup_def stopAudioCapture_fields)

lemma cleanup_idem: "cleanup (cleanup s) = cleanup s"
proof -
  have "stopAudioCapture (cleanup s) = cleanup s"
    by (rule stopAudioCapture_stopped) (simp_all add: cleanup_fields)
  then have "cleanup (cleanup s) =
      (cleanup s)\<lparr>audioQueue := [], isPlaying := False, eventHandlers := Map.empty\<rparr>"
    by (simp add: cleanup_def [of "cleanup s"])
  also have "\<dots> = cleanup s" by (simp add: cleanup_def)
  finally show ?thesis .
qed

lemma close_fields:
  "ws (close s) = None"
  "audioProcessor (close s) = None"
  "mediaStream (close s) = None"
  "audioContext (close s) = None"
  "audioQueue (close s) = []"
  "isPlaying (close s) = False"
  "eventHandlers (close s) = Map.empty"
  by (simp_all add: close_def Let_def cleanup_fields split: option.splits)

lemma close_closed: "ws s = None \<Longrightarrow> close s = cleanup s"
  by (simp add: close_def Let_def cleanup_fields)

lemma close_idem: "close (close s) = close s"
proof -
  have "close (close s) = cleanup (close s)"
    by (rule close_closed) (rule close_fields)
  also have "\<dots> = close s"
    by (cases "ws s") (simp_all add: close_def Let_def cleanup_fields cleanup_idem,
        simp add: cleanup_def stopAudioCapture_def Let_def split: option.splits)
  finally show ?thesis .
qed

text \<open>
  Claim C10. \<open>close\<close> is total and idempotent: closing a client that is already
  closed changes nothing, closing a client that never connected leaves the new client as
  it is, and after \<open>close\<close> there is no link, the audio queue is empty, the playing flag
  is false, the listener registry is empty and the three capture resources are released.
\<close>

theorem close_idempotent_total:
  "close (close s) = close s
   \<and> close new_client = new_client
   \<and> ws (close s) = None \<and> readyState (close s) = CLOSED
   \<and> audioQueue (close s) = [] \<and> isPlaying (close s) = False
   \<and> eventHandlers (close s) = Map.empty
   \<and> audioProcessor (close s) = None \<and> mediaStream (close s) = None
   \<and> audioContext (close s) = None"
proof -
  have "close new_client = new_client"
    by (simp add: close_def cleanup_def stopAudioCapture_def new_client_def)
  then show ?thesis by (simp add: close_idem close_fields readyState_def)
qed

theorem close_idempotent_total_witness:
  "close (close open_client) = close open_client
   \<and> ws (close open_client) = None
   \<and> links (close open_client) = [CLOSING]
   \<and> devlog (close open_client) = [Disconnect 2, StopTracks 1, CloseContext 0]
   \<and> devlog (close (close open_client)) = [Disconnect 2, StopTracks 1, CloseContext 0]"
proof -
  have "links (close open_client) = [CLOSING]"
    and "devlog (close open_client) = [Disconnect 2, StopTracks 1, CloseContext 0]"
    by (simp_all add: close_def cleanup_def stopAudioCapture_def Let_def readyState_def
        session_states open_client_devlog)
  then show ?thesis
    using close_idempotent_total [of open_client] by simp
qed

subsection \<open>connect\<close>

text \<open>
  Claim C2, as stated, fails: \<open>connect\<close> has no test of the lifecycle state. Called
  on a client whose link is connecting, or open, it is not rejected and constructs a
  second link.
\<close>

theorem connect_twice_counterexample:
  "readyState connecting_client = CONNECTING
   \<and> snd (connect True connecting_client) = None
   \<and> links (fst (connect True connecting_client)) = [CONNECTING, CONNECTING]
   \<and> readyState open_client = OPEN
   \<and> snd (connect True open_client) = None
   \<and> links (fst (connect True open_client)) = [OPEN, CONNECTING]"
  by (simp add: session_states connect_def)
     (simp add: connecting_client_def session_client_def new_client_def connect_def on_def Let_def)

text \<open>
  Claim C2, amended. In every lifecycle state, \<open>CONNECTING\<close> and \<open>OPEN\<close>
  included, \<open>connect\<close> constructs one further link, leaves every earlier link as it
  was, makes the new link the client's link and returns a pending promise. The promise is
  rejected at once only when the WebSocket constructor throws, and then no link is made.
\<close>

theorem connect_opens_link_in_every_state:
  "snd (connect True s) = None
   \<and> length (links (fst (connect True s))) = Suc (length (links s))
   \<and> take (length (links s)) (links (fst (connect True s))) = links s
   \<and> ws (fst (connect True s)) = Some (length (links s))
   \<and> readyState (fst (connect True s)) = CONNECTING
   \<and> connect False s = (s, Some SyntaxError)"
  by (simp add: connect_def readyState_def)

theorem connect_opens_link_in_every_state_witness:
  "readyState open_client = OPEN
   \<and> snd (connect True open_client) = None
   \<and> length (links (fst (connect True open_client))) = 2
   \<and> ws (fst (connect True open_client)) = Some 1
   \<and> readyState (fst (connect True open_client)) = CONNECTING"
  using connect_opens_link_in_every_state [of open_client]
  by (simp add: session_states)

subsection \<open>emit\<close>

lemma forEach_eq:
  "forEach t hs = (takeWhile (\<lambda>h. \<not> t h) hs @ take 1 (dropWhile (\<lambda>h. \<not> t h) hs), find t hs)"
  by (induction hs) simp_all

lemma find_None_all: "find t hs = None \<Longrightarrow> takeWhile (\<lambda>h. \<not> t h) hs = hs \<and> dropWhile (\<lambda>h. \<not> t h) hs = []"
  by (induction hs) (simp_all split: if_splits)

lemma find_None_whole:
  "find t hs = None \<Longrightarrow>
     takeWhile (\<lambda>h. \<not> t h) hs @ take 1 (dropWhile (\<lambda>h. \<not> t h) hs) = hs"
  by (induction hs) (simp_all split: if_splits)

lemma find_Some_first:
  "find t hs = Some h \<Longrightarrow>
     takeWhile (\<lambda>h. \<not> t h) (hs @ gs) = takeWhile (\<lambda>h. \<not> t h) hs
     \<and> take 1 (dropWhile (\<lambda>h. \<not> t h) (hs @ gs)) = take 1 (dropWhile (\<lambda>h. \<not> t h) hs)
     \<and> find t (hs @ gs) = Some h"
  by (induction hs) (simp_all split: if_splits)

lemma find_None_append:
  "find t hs = None \<Longrightarrow>
     takeWhile (\<lambda>h. \<not> t h) (hs @ gs) = hs @ takeWhile (\<lambda>h. \<not> t h) gs
     \<and> dropWhile (\<lambda>h. \<not> t h) (hs @ gs) = dropWhile (\<lambda>h. \<not> t h) gs
     \<and> find t (hs @ gs) = find t gs"
  by (induction hs) (simp_all split: if_splits)

lemma emit_eq:
  "emit throws e s =
     (let ls = handlers_of s (etype e) @ handlers_of s ''*''
      in (takeWhile (\<lambda>h. \<not> throws h e) ls @ take 1 (dropWhile (\<lambda>h. \<not> throws h e) ls),
          find (\<lambda>h. throws h e) ls))"
proof (cases "find (\<lambda>h. throws h e) (handlers_of s (etype e))")
  case None
  show ?thesis
    using find_None_append [OF None, of "handlers_of s ''*''"] find_None_all [OF None]
    by (simp add: emit_def forEach_eq None Let_def)
next
  case (Some h)
  show ?thesis
    using find_Some_first [OF Some, of "handlers_of s ''*''"]
    by (simp add: emit_def forEach_eq Some Let_def)
qed

text \<open>
  Claim C3, as stated, fails: \<open>emit\<close> has no exception handler around a listener.
  With listener 1 under \<open>foo\<close> throwing and listener 2 under the wildcard, a
  \<open>foo\<close> event is delivered to listener 1 only.
\<close>

theorem listener_isolation_counterexample:
  "handlers_of two_listeners ''foo'' = [1]
   \<and> handlers_of two_listeners ''*'' = [2]
   \<and> emit first_throws foo_event two_listeners = ([1], Some 1)"
  by (simp add: two_listeners_def new_client_def on_def handlers_of_def emit_def
      first_throws_def foo_event_def)

text \<open>
  Claim C3, amended. Provided that no listener calls back into the client (\<open>on\<close>,
  \<open>off\<close>, \<open>close\<close>) while the event is dispatched: \<open>emit\<close> calls the listeners of
  the event's type and then those of the wildcard label, in insertion order, up to and
  including the first listener that throws; that exception leaves \<open>emit\<close> and no later
  listener is called. When no listener throws, every matching listener is called.
\<close>

theorem emit_stops_at_first_throw:
  "fst (emit throws e s) =
     takeWhile (\<lambda>h. \<not> throws h e) (handlers_of s (etype e) @ handlers_of s ''*'')
     @ take 1 (dropWhile (\<lambda>h. \<not> throws h e) (handlers_of s (etype e) @ handlers_of s ''*''))
   \<and> snd (emit throws e s) =
     find (\<lambda>h. throws h e) (handlers_of s (etype e) @ handlers_of s ''*'')
   \<and> (snd (emit throws e s) = None \<longrightarrow>
        fst (emit throws e s) = handlers_of s (etype e) @ handlers_of s ''*'')"
proof -
  define ls where "ls = handlers_of s (etype e) @ handlers_of s ''*''"
  have "find (\<lambda>h. throws h e) ls = None \<Longrightarrow>
      takeWhile (\<lambda>h. \<not> throws h e) ls @ take 1 (dropWhile (\<lambda>h. \<not> throws h e) ls) = ls"
    by (rule find_None_whole)
  then show ?thesis by (simp add: emit_eq Let_def ls_def [symmetric])
qed

theorem emit_stops_at_first_throw_witness:
  "snd (emit never_throws foo_event two_listeners) = None
   \<and> fst (emit never_throws foo_event two_listeners) = [1, 2]
   \<and> snd (emit first_throws foo_event two_listeners) = Some 1
   \<and> fst (emit first_throws foo_event two_listeners) = [1]"
  using emit_stops_at_first_throw [of never_throws foo_event two_listeners]
    emit_stops_at_first_throw [of first_throws foo_event two_listeners]
  by (simp add: two_listeners_def new_client_def on_def handlers_of_def
      first_throws_def never_throws_def foo_event_def)

subsection \<open>The close listener\<close>

lemma ws_close_emits_to_nobody: "snd (ws_close throws k code reason s) = ([], None)"
  by (simp add: ws_close_def Let_def emit_def handlers_of_def cleanup_def)

text \<open>
  Claim C1. When the link closes, the close listener runs the full cleanup and then emits
  a \<open>close\<close> event with the code and the reason. Since the cleanup has emptied the
  registry, the event is delivered to no listener: here listener 3 is subscribed to
  \<open>close\<close> and listener 7 to every event before the link is closed with code 1008, and
  neither is called. The same holds when the client calls \<open>close\<close> itself and the
  browser then reports the link closed.
\<close>

theorem remote_close_reaches_no_listener:
  "handlers_of open_client ''close'' = [3]
   \<and> handlers_of open_client ''*'' = [7]
   \<and> snd (ws_close never_throws 0 1008 [] open_client) = ([], None)
   \<and> snd (ws_close never_throws 0 1000 [] (close open_client)) = ([], None)
   \<and> eventHandlers (fst (ws_close never_throws 0 1008 [] open_client)) = Map.empty
   \<and> audioQueue (fst (ws_close never_throws 0 1008 [] open_client)) = []
   \<and> audioProcessor (fst (ws_close never_throws 0 1008 [] open_client)) = None
   \<and> readyState (fst (ws_close never_throws 0 1008 [] open_client)) = CLOSED"
  by (simp add: session_states ws_close_emits_to_nobody)
     (simp add: ws_close_def Let_def cleanup_def stopAudioCapture_def readyState_def session_states
        split: option.splits)
subsection \<open>sendEvent\<close>

lemma open_has_link: "readyState s = OPEN \<Longrightarrow> \<exists>k. ws s = Some k"
  by (cases "ws s") (simp_all add: readyState_def)

lemma ws_send_fields:
  "ws (ws_send e s) = ws s" "links (ws_send e s) = links s" "uuids (ws_send e s) = uuids s"
  "readyState (ws_send e s) = readyState s"
  "ws s = Some k \<Longrightarrow> wire (ws_send e s) = wire s @ [(k, e)]"
  by (simp_all add: ws_send_def readyState_def split: option.splits)

lemma sendEvent_open:
  assumes "readyState s = OPEN" and "ws s = Some k"
  shows "lacks_event_id e \<Longrightarrow>
           wire (sendEvent u e s) = wire s @ [(k, e\<lparr>event_id := Some (u (uuids s))\<rparr>)]"
    and "lacks_event_id e \<Longrightarrow> uuids (sendEvent u e s) = Suc (uuids s)"
    and "\<not> lacks_event_id e \<Longrightarrow> wire (sendEvent u e s) = wire s @ [(k, e)]"
    and "\<not> lacks_event_id e \<Longrightarrow> uuids (sendEvent u e s) = uuids s"
    and "readyState (sendEvent u e s) = OPEN"
    and "ws (sendEvent u e s) = Some k"
  using assms by (simp_all add: sendEvent_def ws_send_def readyState_def split: if_splits)

lemma sendEvent_not_open: "readyState s \<noteq> OPEN \<Longrightarrow> sendEvent u e s = s"
  by (simp add: sendEvent_def)

lemma tick_open:
  assumes "readyState s = OPEN" and "ws s = Some k"
  shows "snd (onaudioprocess block (n, s)) =
           s\<lparr>wire := wire s @ [(k, \<lparr>etype = ''input_audio_buffer.append'', event_id = None,
                payload = [(''audio'', JString (arrayBufferToBase64 (convertFloat32ToPCM16 block)))]\<rparr>)]\<rparr>"
  using assms by (simp add: onaudioprocess_def ws_send_def Let_def)

text \<open>
  Claim C4, as stated, fails for the audio blocks of the capture pipeline: the block
  handler that \<open>startAudioCaptureSync\<close> installs hands its event to \<open>ws.send\<close>
  itself, not to \<open>sendEvent\<close>, and the frame goes out without an \<open>event_id\<close>.
\<close>

theorem capture_block_without_identifier:
  "readyState open_client = OPEN
   \<and> map (event_id \<circ> snd) (wire (snd (onaudioprocess [] (0, open_client)))) = [None]"
  by (simp add: session_states tick_open [of open_client 0])

text \<open>
  Claim C4, amended. On an open link, \<open>sendEvent\<close> transmits an event that lacks an
  \<open>event_id\<close> (none, or the empty string) with exactly one identifier, the value of
  one further call of \<open>crypto.randomUUID\<close>, and transmits an event that carries a
  non-empty \<open>event_id\<close> unchanged, without generating anything. Two events sent one
  after the other get different identifiers when \<open>randomUUID\<close> does not repeat
  itself. The audio blocks of the capture pipeline are transmitted without an
  \<open>event_id\<close>.
\<close>

theorem sendEvent_assigns_identifier:
  assumes "readyState s = OPEN" and "ws s = Some k"
  shows "(lacks_event_id e \<longrightarrow>
            wire (sendEvent randomUUID e s)
              = wire s @ [(k, e\<lparr>event_id := Some (randomUUID (uuids s))\<rparr>)]
            \<and> uuids (sendEvent randomUUID e s) = Suc (uuids s))
       \<and> (\<not> lacks_event_id e \<longrightarrow>
            wire (sendEvent randomUUID e s) = wire s @ [(k, e)]
            \<and> uuids (sendEvent randomUUID e s) = uuids s)
       \<and> (inj randomUUID \<longrightarrow> lacks_event_id e \<longrightarrow> lacks_event_id e' \<longrightarrow>
            event_id (snd (last (wire (sendEvent randomUUID e' (sendEvent randomUUID e s)))))
              \<noteq> event_id (snd (last (wire (sendEvent randomUUID e s)))))
       \<and> map (event_id \<circ> snd) (wire (snd (onaudioprocess block (n, s))))
            = map (event_id \<circ> snd) (wire s) @ [None]"
proof -
  let ?s1 = "sendEvent randomUUID e s"
  have o1: "readyState ?s1 = OPEN" and w1: "ws ?s1 = Some k"
    using assms by (rule sendEvent_open)+
  have "inj randomUUID \<Longrightarrow> lacks_event_id e \<Longrightarrow> lacks_event_id e' \<Longrightarrow>
      event_id (snd (last (wire (sendEvent randomUUID e' ?s1))))
        \<noteq> event_id (snd (last (wire ?s1)))"
  proof -
    assume i: "inj randomUUID" and l: "lacks_event_id e" and l': "lacks_event_id e'"
    have "randomUUID (Suc (uuids s)) \<noteq> randomUUID (uuids s)"
      using i by (simp add: inj_eq)
    then show ?thesis
      by (simp add: sendEvent_open(1) [OF o1 w1 l'] sendEvent_open(1) [OF assms l]
          sendEvent_open(2) [OF assms l])
  qed
  moreover have "map (event_id \<circ> snd) (wire (snd (onaudioprocess block (n, s))))
            = map (event_id \<circ> snd) (wire s) @ [None]"
    by (simp add: tick_open [OF assms])
  ultimately show ?thesis
    using sendEvent_open(1-4) [OF assms] by blast
qed

lemma inj_counting_uuid: "inj counting_uuid"
  by (rule injI) (simp add: counting_uuid_def)

theorem sendEvent_assigns_identifier_witness:
  "readyState open_client = OPEN \<and> ws open_client = Some 0 \<and> inj counting_uuid
   \<and> lacks_event_id foo_event
   \<and> wire (sendEvent counting_uuid foo_event open_client)
       = [(0, foo_event\<lparr>event_id := Some ''u''\<rparr>)]
   \<and> \<not> lacks_event_id (foo_event\<lparr>event_id := Some ''mine''\<rparr>)
   \<and> wire (sendEvent counting_uuid (foo_event\<lparr>event_id := Some ''mine''\<rparr>) open_client)
       = [(0, foo_event\<lparr>event_id := Some ''mine''\<rparr>)]
   \<and> event_id (snd (last (wire (sendEvent counting_uuid foo_event
         (sendEvent counting_uuid foo_event open_client)))))
       \<noteq> event_id (snd (last (wire (sendEvent counting_uuid foo_event open_client))))
   \<and> map (event_id \<circ> snd) (wire (snd (onaudioprocess [] (0, open_client)))) = [None]"
proof -
  have o: "readyState open_client = OPEN" "ws open_client = Some 0"
    by (simp_all add: session_states)
  have l: "lacks_event_id foo_event" by (simp add: lacks_event_id_def foo_event_def)
  have m: "\<not> lacks_event_id (foo_event\<lparr>event_id := Some ''mine''\<rparr>)"
    by (simp add: lacks_event_id_def)
  note a = sendEvent_assigns_identifier [OF o, of foo_event counting_uuid foo_event "[]" 0]
  note b = sendEvent_assigns_identifier [OF o, of "foo_event\<lparr>event_id := Some ''mine''\<rparr>"
      counting_uuid foo_event "[]" 0]
  from a l have "wire (sendEvent counting_uuid foo_event open_client)
       = wire open_client @ [(0, foo_event\<lparr>event_id := Some (counting_uuid (uuids open_client))\<rparr>)]"
    by blast
  then have 1: "wire (sendEvent counting_uuid foo_event open_client)
       = [(0, foo_event\<lparr>event_id := Some ''u''\<rparr>)]"
    by (simp add: session_states counting_uuid_def)
  from b m have "wire (sendEvent counting_uuid (foo_event\<lparr>event_id := Some ''mine''\<rparr>) open_client)
       = wire open_client @ [(0, foo_event\<lparr>event_id := Some ''mine''\<rparr>)]"
    by blast
  then have 2: "wire (sendEvent counting_uuid (foo_event\<lparr>event_id := Some ''mine''\<rparr>) open_client)
       = [(0, foo_event\<lparr>event_id := Some ''mine''\<rparr>)]"
    by (simp add: session_states)
  from a l inj_counting_uuid
  have 3: "event_id (snd (last (wire (sendEvent counting_uuid foo_event
         (sendEvent counting_uuid foo_event open_client)))))
       \<noteq> event_id (snd (last (wire (sendEvent counting_uuid foo_event open_client))))"
    by blast
  from a have "map (event_id \<circ> snd) (wire (snd (onaudioprocess [] (0, open_client))))
      = map (event_id \<circ> snd) (wire open_client) @ [None]"
    by blast
  then have 4: "map (event_id \<circ> snd) (wire (snd (onaudioprocess [] (0, open_client)))) = [None]"
    by (simp add: session_states)
  from o inj_counting_uuid l m 1 2 3 4 show ?thesis by blast
qed

subsection \<open>Capture ticks\<close>

text \<open>
  Claim C8. Every tick of the block handler increments the block counter. When the link is
  not open the block is dropped: the client, its queue and the wire are as before.
  Otherwise one frame is sent on the client's link, of type
  \<open>input_audio_buffer.append\<close>, whose \<open>audio\<close> field is the base64 text of the
  PCM16 encoding of the block (and decodes to these bytes again).
\<close>

theorem capture_tick:
  "fst (onaudioprocess block (n, s)) = Suc n
   \<and> (readyState s \<noteq> OPEN \<longrightarrow> snd (onaudioprocess block (n, s)) = s)
   \<and> (readyState s = OPEN \<longrightarrow>
        (\<exists>k audio. ws s = Some k
           \<and> snd (onaudioprocess block (n, s))
               = s\<lparr>wire := wire s @ [(k, \<lparr>etype = ''input_audio_buffer.append'',
                     event_id = None, payload = [(''audio'', JString audio)]\<rparr>)]\<rparr>
           \<and> audio = arrayBufferToBase64 (convertFloat32ToPCM16 block)
           \<and> base64ToArrayBuffer audio = Inr (convertFloat32ToPCM16 block)))"
proof -
  have "fst (onaudioprocess block (n, s)) = Suc n"
    by (simp add: onaudioprocess_def Let_def)
  moreover have "readyState s \<noteq> OPEN \<Longrightarrow> snd (onaudioprocess block (n, s)) = s"
    by (simp add: onaudioprocess_def)
  moreover have "readyState s = OPEN \<Longrightarrow>
        (\<exists>k audio. ws s = Some k
           \<and> snd (onaudioprocess block (n, s))
               = s\<lparr>wire := wire s @ [(k, \<lparr>etype = ''input_audio_buffer.append'',
                     event_id = None, payload = [(''audio'', JString audio)]\<rparr>)]\<rparr>
           \<and> audio = arrayBufferToBase64 (convertFloat32ToPCM16 block)
           \<and> base64ToArrayBuffer audio = Inr (convertFloat32ToPCM16 block))"
  proof -
    assume o: "readyState s = OPEN"
    then obtain k where k: "ws s = Some k" using open_has_link by blast
    show ?thesis
      using tick_open [OF o k, of block n] k base64_decodes_encoded by blast
  qed
  ultimately show ?thesis by blast
qed

theorem capture_tick_witness:
  "readyState open_client = OPEN
   \<and> fst (onaudioprocess [Finite 0] (0, open_client)) = 1
   \<and> wire (snd (onaudioprocess [Finite 0] (0, open_client)))
       = [(0, \<lparr>etype = ''input_audio_buffer.append'', event_id = None,
               payload = [(''audio'', JString ''AAA='')]\<rparr>)]
   \<and> readyState connecting_client \<noteq> OPEN
   \<and> onaudioprocess [Finite 0] (0, connecting_client) = (1, connecting_client)"
proof -
  have pcm: "convertFloat32ToPCM16 [Finite 0] = [0, 0]"
    by (simp add: convertFloat32ToPCM16_def pcm16_sample_def int16_bytes_def js_truncate_def)
  have b64: "arrayBufferToBase64 [0, 0] = ''AAA=''"
    by (simp add: arrayBufferToBase64_def btoa_def b64char_def b64chars_def)
  show ?thesis
    using capture_tick [of "[Finite 0]" 0 open_client]
      capture_tick [of "[Finite 0]" 0 connecting_client]
    by (auto simp add: session_states pcm b64 prod_eq_iff)
qed
subsection \<open>Playback queue\<close>

declare playNextAudioChunk.simps [simp del]

lemma try_play_keeps:
  "audioQueue (fst (try_play dev c s)) = audioQueue s"
  "isPlaying (fst (try_play dev c s)) = isPlaying s"
  "has_context dev (fst (try_play dev c s)) = has_context dev s"
  by (auto simp add: try_play_def Let_def has_context_def split: option.splits sum.splits)

lemma try_play_ok: "snd (try_play dev c s) = playable dev (has_context dev s) c"
  by (auto simp add: try_play_def Let_def has_context_def playable_def
      split: option.splits sum.splits)

lemma try_play_started:
  "snd (try_play dev c s) \<Longrightarrow>
     playing (fst (try_play dev c s)) = playing s @ [c]
     \<and> started (fst (try_play dev c s)) = started s @ [c]"
  by (auto simp add: try_play_def Let_def split: option.splits sum.splits if_splits)

lemma try_play_failed:
  "\<not> snd (try_play dev c s) \<Longrightarrow>
     playing (fst (try_play dev c s)) = playing s
     \<and> started (fst (try_play dev c s)) = started s"
  by (auto simp add: try_play_def Let_def split: option.splits sum.splits if_splits)

lemma has_context_update [simp]:
  "has_context dev (s\<lparr>audioQueue := q\<rparr>) = has_context dev s"
  "has_context dev (s\<lparr>isPlaying := b\<rparr>) = has_context dev s"
  "has_context dev (s\<lparr>playing := p\<rparr>) = has_context dev s"
  by (simp_all add: has_context_def)

text \<open>The equation of the source: an empty queue clears the flag, otherwise the head is
  taken and either starts or is skipped.\<close>

lemma playNext_empty: "audioQueue s = [] \<Longrightarrow> playNextAudioChunk dev s = s\<lparr>isPlaying := False\<rparr>"
  by (simp add: playNextAudioChunk.simps [of dev s])

lemma playNext_head:
  "audioQueue s = c # rest \<Longrightarrow>
     playNextAudioChunk dev s =
       (if snd (try_play dev c (s\<lparr>isPlaying := True, audioQueue := rest\<rparr>))
        then fst (try_play dev c (s\<lparr>isPlaying := True, audioQueue := rest\<rparr>))
        else playNextAudioChunk dev (fst (try_play dev c (s\<lparr>isPlaying := True, audioQueue := rest\<rparr>))))"
  by (simp add: playNextAudioChunk.simps [of dev s] split: prod.splits)

lemma playNext_inv:
  "audioQueue s = q \<Longrightarrow> playing s = [] \<Longrightarrow>
     queue_inv (playNextAudioChunk dev s)
     \<and> has_context dev (playNextAudioChunk dev s) = has_context dev s
     \<and> started (playNextAudioChunk dev s)
         @ filter (playable dev (has_context dev s)) (audioQueue (playNextAudioChunk dev s))
       = started s @ filter (playable dev (has_context dev s)) q"
proof (induction q arbitrary: s)
  case Nil
  then show ?case by (simp add: playNext_empty queue_inv_def has_context_def)
next
  case (Cons c rest)
  let ?s1 = "s\<lparr>isPlaying := True, audioQueue := rest\<rparr>"
  let ?t = "fst (try_play dev c ?s1)"
  have hc1: "has_context dev ?s1 = has_context dev s" by (simp add: has_context_def)
  have ok: "snd (try_play dev c ?s1) = playable dev (has_context dev s) c"
    by (simp add: try_play_ok hc1)
  have hct: "has_context dev ?t = has_context dev s" by (simp add: try_play_keeps hc1)
  have qt: "audioQueue ?t = rest" and pt: "isPlaying ?t = True" by (simp_all add: try_play_keeps)
  show ?case
  proof (cases "playable dev (has_context dev s) c")
    case True
    then have r: "playNextAudioChunk dev s = ?t"
      using playNext_head [OF Cons.prems(1), of dev] ok by simp
    have "playing ?t = [c]" and "started ?t = started s @ [c]"
      using try_play_started [of dev c ?s1] ok True Cons.prems(2) by simp_all
    then show ?thesis using True by (simp add: r queue_inv_def qt pt hct)
  next
    case False
    then have r: "playNextAudioChunk dev s = playNextAudioChunk dev ?t"
      using playNext_head [OF Cons.prems(1), of dev] ok by simp
    have "playing ?t = []" and st: "started ?t = started s"
      using try_play_failed [of dev c ?s1] ok False Cons.prems(2) by simp_all
    from Cons.IH [OF qt this(1)] show ?thesis
      using False by (simp add: r hct st)
  qed
qed

lemma queueAudio_inv:
  assumes "queue_inv s"
  shows "queue_inv (queueAudio dev c s)
     \<and> has_context dev (queueAudio dev c s) = has_context dev s
     \<and> started (queueAudio dev c s)
         @ filter (playable dev (has_context dev s)) (audioQueue (queueAudio dev c s))
       = started s @ filter (playable dev (has_context dev s)) (audioQueue s @ [c])"
proof (cases "isPlaying s")
  case True
  then show ?thesis using assms by (simp add: queueAudio_def Let_def queue_inv_def has_context_def)
next
  case False
  let ?s1 = "s\<lparr>audioQueue := audioQueue s @ [c]\<rparr>"
  from False assms have e: "playing s = []" "audioQueue s = []" by (simp_all add: queue_inv_def)
  have r: "queueAudio dev c s = playNextAudioChunk dev ?s1"
    using False by (simp add: queueAudio_def Let_def)
  have hc1: "has_context dev ?s1 = has_context dev s" by (simp add: has_context_def)
  from playNext_inv [of ?s1 "audioQueue s @ [c]" dev] e
  show ?thesis by (simp add: r hc1)
qed

lemma onended_inv:
  assumes "queue_inv s" and "playing s \<noteq> []"
  shows "queue_inv (onended dev s)
     \<and> has_context dev (onended dev s) = has_context dev s
     \<and> started (onended dev s)
         @ filter (playable dev (has_context dev s)) (audioQueue (onended dev s))
       = started s @ filter (playable dev (has_context dev s)) (audioQueue s)"
proof -
  let ?s1 = "s\<lparr>playing := tl (playing s)\<rparr>"
  from assms have "length (playing s) = 1" by (cases "playing s") (simp_all add: queue_inv_def)
  then have e: "playing ?s1 = []" by (cases "playing s") simp_all
  have hc1: "has_context dev ?s1 = has_context dev s" by (simp add: has_context_def)
  from playNext_inv [of ?s1 "audioQueue s" dev] e
  show ?thesis by (simp add: onended_def hc1)
qed

lemma playback_inv:
  "queue_inv s \<Longrightarrow> playback dev evs s = Some s' \<Longrightarrow>
     queue_inv s'
     \<and> has_context dev s' = has_context dev s
     \<and> started s' @ filter (playable dev (has_context dev s)) (audioQueue s')
       = started s @ filter (playable dev (has_context dev s)) (audioQueue s @ enqueued evs)"
proof (induction dev evs s rule: playback.induct)
  case (1 dev s)
  then show ?case by simp
next
  case (2 dev c evs s)
  from queueAudio_inv [OF "2.prems"(1), of dev c]
  have i: "queue_inv (queueAudio dev c s)"
    and h: "has_context dev (queueAudio dev c s) = has_context dev s"
    and g: "started (queueAudio dev c s)
         @ filter (playable dev (has_context dev s)) (audioQueue (queueAudio dev c s))
       = started s @ filter (playable dev (has_context dev s)) (audioQueue s @ [c])"
    by simp_all
  from "2.prems"(2) have "playback dev evs (queueAudio dev c s) = Some s'" by simp
  from "2.IH" [OF i this] show ?case using g by (simp add: h)
next
  case (3 dev evs s)
  from "3.prems"(2) have ne: "playing s \<noteq> []" and run: "playback dev evs (onended dev s) = Some s'"
    by (simp_all split: if_splits)
  from onended_inv [OF "3.prems"(1) ne, of dev]
  have i: "queue_inv (onended dev s)"
    and h: "has_context dev (onended dev s) = has_context dev s"
    and g: "started (onended dev s)
         @ filter (playable dev (has_context dev s)) (audioQueue (onended dev s))
       = started s @ filter (playable dev (has_context dev s)) (audioQueue s)"
    by simp_all
  from "3.IH" [OF ne i run] show ?case using g by (simp add: h)
qed

text \<open>
  Claim C5. Start from a new client (with or without an audio context set by the caller)
  and let chunks arrive and playing sources end in any order in which a completion only
  fires while a source is playing. Then, after every such run: the flag \<open>isPlaying\<close> is
  true exactly when a source has been started and has not ended; at most one source is
  playing, so no chunk begins while another plays; chunks wait in the queue only while a
  source plays; and the chunks that began playing, followed by the chunks still queued that
  can be played, are the enqueued chunks that can be played, in arrival order. A chunk
  whose decoding or start fails is skipped.
\<close>

theorem playback_fifo_one_at_a_time:
  assumes "playback dev evs (new_client\<lparr>audioContext := ac, mediaStream := ms\<rparr>) = Some s"
  shows "(isPlaying s = (playing s \<noteq> []))
       \<and> length (playing s) \<le> 1
       \<and> (isPlaying s \<or> audioQueue s = [])
       \<and> started s @ filter (playable dev (ac \<noteq> None \<or> newAudioContext dev \<noteq> None)) (audioQueue s)
           = filter (playable dev (ac \<noteq> None \<or> newAudioContext dev \<noteq> None)) (enqueued evs)"
proof -
  let ?s0 = "new_client\<lparr>audioContext := ac, mediaStream := ms\<rparr>"
  have i: "queue_inv ?s0" by (simp add: queue_inv_def new_client_def)
  have h: "has_context dev ?s0 = (ac \<noteq> None \<or> newAudioContext dev \<noteq> None)"
    by (simp add: has_context_def)
  have e: "started ?s0 = []" "audioQueue ?s0 = []" by (simp_all add: new_client_def)
  from playback_inv [OF i assms] have "queue_inv s"
    and "started s @ filter (playable dev (ac \<noteq> None \<or> newAudioContext dev \<noteq> None)) (audioQueue s)
       = filter (playable dev (ac \<noteq> None \<or> newAudioContext dev \<noteq> None)) (enqueued evs)"
    unfolding h e by simp_all
  then show ?thesis unfolding queue_inv_def by blast
qed

lemma test_chunks:
  "base64ToArrayBuffer ''AAABAA=='' = Inr [0, 0, 1, 0]"
  "base64ToArrayBuffer ''AAA='' = Inr [0, 0]"
  "base64ToArrayBuffer ''?'' = Inl InvalidCharacterError"
  "decodePCM16 [0, 0, 1, 0] = Inr [0, 32769 / 1073741824]"
  "decodePCM16 [0, 0] = Inr [0]"
  by (simp_all add: base64ToArrayBuffer_def atob_def strip_padding_def ascii_whitespace_def
      b64index_def b64chars_def Let_def decodePCM16_def pcm16_to_float_def fround_zero
      fround_values)

lemma test_run:
  "playback test_device [Enqueue ''AAABAA=='', Enqueue ''?'', Enqueue ''AAA='', Ended]
     (new_client\<lparr>audioContext := None, mediaStream := None\<rparr>)
   = Some (new_client\<lparr>audioContext := Some 9, isPlaying := True, playing := [''AAA=''],
             started := [''AAABAA=='', ''AAA='']\<rparr>)"
  by (simp add: queueAudio_def onended_def playNext_head playNext_empty try_play_def
      test_device_def new_client_def Let_def test_chunks)

theorem playback_fifo_one_at_a_time_witness:
  "playback test_device [Enqueue ''AAABAA=='', Enqueue ''?'', Enqueue ''AAA='', Ended]
     (new_client\<lparr>audioContext := None, mediaStream := None\<rparr>)
   = Some (new_client\<lparr>audioContext := Some 9, isPlaying := True, playing := [''AAA=''],
             started := [''AAABAA=='', ''AAA='']\<rparr>)
   \<and> filter (playable test_device True) [''AAABAA=='', ''?'', ''AAA='']
       = [''AAABAA=='', ''AAA='']"
  using test_run
    playback_fifo_one_at_a_time [OF test_run]
  by (simp add: new_client_def test_device_def)

end
